theory Spec2Isabelle
  imports Main
begin

section \<open>JavaScript strings\<close>

text \<open>
  Strings are lists of characters, one character for one code unit of the JavaScript
  string (the code units below 256, which cover the ASCII file paths). The functions
  below are the string methods that \<^verbatim>\<open>getRoutes.ts\<close> calls, with the behaviour
  JavaScript gives them on the inputs the module passes: \<^verbatim>\<open>startsWith\<close>, \<^verbatim>\<open>endsWith\<close>,
  \<^verbatim>\<open>split\<close> on a one-character separator, \<^verbatim>\<open>join\<close>, \<^verbatim>\<open>trim\<close>, and \<^verbatim>\<open>replace\<close> with a
  string pattern (first occurrence only, with the \<^verbatim>\<open>$\<close> patterns of the replacement
  string expanded).
\<close>

definition startsWith :: "string \<Rightarrow> string \<Rightarrow> bool" where
  "startsWith s p = (take (length p) s = p)"

definition endsWith :: "string \<Rightarrow> string \<Rightarrow> bool" where
  "endsWith s p = (length p \<le> length s \<and> drop (length s - length p) s = p)"

text \<open>\<^verbatim>\<open>s.split(sep)\<close>: the result is never empty; \<^verbatim>\<open>''.split('/')\<close> is \<^verbatim>\<open>['']\<close>.\<close>

fun split :: "string \<Rightarrow> char \<Rightarrow> string list" where
  "split [] sep = [[]]"
| "split (c # cs) sep =
     (if c = sep then [] # split cs sep
      else (c # hd (split cs sep)) # tl (split cs sep))"

fun join :: "string list \<Rightarrow> string \<Rightarrow> string" where
  "join [] sep = []"
| "join [x] sep = x"
| "join (x # y # ys) sep = x @ sep @ join (y # ys) sep"

text \<open>
  The white space and line terminators that \<^verbatim>\<open>trim\<close> removes: tab, line feed, vertical
  tab, form feed, carriage return, space and no-break space.
\<close>

definition isWhiteSpace :: "char \<Rightarrow> bool" where
  "isWhiteSpace c =
     (c \<in> {CHR '' '', CHR 0x09, CHR 0x0A, CHR 0x0B, CHR 0x0C, CHR 0x0D, CHR 0xA0})"

definition trim :: "string \<Rightarrow> string" where
  "trim s = rev (dropWhile isWhiteSpace (rev (dropWhile isWhiteSpace s)))"

text \<open>
  The leftmost occurrence of \<open>pat\<close> in \<open>s\<close>: the text before it and the text after it.
  The empty pattern occurs at position 0.
\<close>

fun splitFirst :: "string \<Rightarrow> string \<Rightarrow> (string \<times> string) option" where
  "splitFirst pat [] = (if pat = [] then Some ([], []) else None)"
| "splitFirst pat (c # cs) =
     (if startsWith (c # cs) pat then Some ([], drop (length pat) (c # cs))
      else map_option (\<lambda>(b, a). (c # b, a)) (splitFirst pat cs))"

text \<open>
  The replacement text of \<^verbatim>\<open>String.prototype.replace\<close> for a string pattern (no capture
  groups): \<^verbatim>\<open>$$\<close> is a dollar sign, \<^verbatim>\<open>$&\<close> the matched text, \<^verbatim>\<open>$`\<close> the text before the
  match and \<^verbatim>\<open>$'\<close> the text after it; every other character stands for itself.
\<close>

fun getSubstitution :: "string \<Rightarrow> string \<Rightarrow> string \<Rightarrow> string \<Rightarrow> string" where
  "getSubstitution matched preceding following [] = []"
| "getSubstitution matched preceding following [c] = [c]"
| "getSubstitution matched preceding following (c # d # r) =
     (if c = CHR ''$'' \<and> d = CHR ''$''
      then CHR ''$'' # getSubstitution matched preceding following r
      else if c = CHR ''$'' \<and> d = CHR ''&''
      then matched @ getSubstitution matched preceding following r
      else if c = CHR ''$'' \<and> d = CHR 0x60
      then preceding @ getSubstitution matched preceding following r
      else if c = CHR ''$'' \<and> d = CHR 0x27
      then following @ getSubstitution matched preceding following r
      else c # getSubstitution matched preceding following (d # r))"

definition replace :: "string \<Rightarrow> string \<Rightarrow> string \<Rightarrow> string" where
  "replace s pat rep =
     (case splitFirst pat s of
        None \<Rightarrow> s
      | Some (b, a) \<Rightarrow> b @ getSubstitution pat b a rep @ a)"

section \<open>The regular expressions of the module\<close>

text \<open>\<^verbatim>\<open>key.replace(/^\.\//, '')\<close>\<close>

definition removeLeadingDotSlash :: "string \<Rightarrow> string" where
  "removeLeadingDotSlash key = (if startsWith key ''./'' then drop 2 key else key)"

text \<open>\<^verbatim>\<open>/\+api\.[jt]sx?$/\<close>\<close>

definition matchesApi :: "string \<Rightarrow> bool" where
  "matchesApi key =
     (endsWith key ''+api.js'' \<or> endsWith key ''+api.jsx''
      \<or> endsWith key ''+api.ts'' \<or> endsWith key ''+api.tsx'')"

text \<open>\<^verbatim>\<open>/^\.\/\+html\.[tj]sx?$/\<close>\<close>

definition matchesHtml :: "string \<Rightarrow> bool" where
  "matchesHtml key =
     (key = ''./+html.js'' \<or> key = ''./+html.jsx''
      \<or> key = ''./+html.ts'' \<or> key = ''./+html.tsx'')"

text \<open>
  \<^verbatim>\<open>s.replace(/\/?_layout$/, '')\<close>: the leftmost match takes the slash when there is
  one.
\<close>

definition removeLayoutSuffix :: "string \<Rightarrow> string" where
  "removeLayoutSuffix s =
     (if endsWith s ''/_layout'' then take (length s - 8) s
      else if endsWith s ''_layout'' then take (length s - 7) s
      else s)"

text \<open>
  \<^verbatim>\<open>name.replace(new RegExp(`.${platform}$`), '')\<close>, for a platform of
  \<open>validPlatforms\<close> (letters only): the dot of the pattern is the regular
  expression's wildcard, so any one character that is not a line terminator is
  removed together with the platform that ends the name.
\<close>

definition isLineTerminator :: "char \<Rightarrow> bool" where
  "isLineTerminator c = (c = CHR 0x0A \<or> c = CHR 0x0D)"

definition removePlatformSuffix :: "string \<Rightarrow> string \<Rightarrow> string" where
  "removePlatformSuffix s platform =
     (if length platform < length s \<and> endsWith s platform
         \<and> \<not> isLineTerminator (s ! (length s - length platform - 1))
      then take (length s - length platform - 1) s
      else s)"

section \<open>The matchers\<close>

text \<open>
  Modelled from the spec: \<^verbatim>\<open>removeSupportedExtensions\<close> of \<^verbatim>\<open>../matchers\<close>, which is not
  among the sources. The spec speaks of the extension-stripped base name and of four
  recognized script extensions: one trailing \<^verbatim>\<open>.js\<close>, \<^verbatim>\<open>.jsx\<close>, \<^verbatim>\<open>.ts\<close> or \<^verbatim>\<open>.tsx\<close> is
  removed.
\<close>

definition removeSupportedExtensions :: "string \<Rightarrow> string" where
  "removeSupportedExtensions s =
     (if endsWith s ''.tsx'' \<or> endsWith s ''.jsx'' then take (length s - 4) s
      else if endsWith s ''.ts'' \<or> endsWith s ''.js'' then take (length s - 3) s
      else s)"

text \<open>
  Modelled from the spec: \<^verbatim>\<open>matchDynamicName\<close> of \<^verbatim>\<open>../matchers\<close>, which is not among
  the sources. The spec gives the bracket syntax \<^verbatim>\<open>[name]\<close> for a dynamic segment: the
  whole segment is one bracket pair around a non-empty name without brackets.
\<close>

definition matchDynamicName :: "string \<Rightarrow> string option" where
  "matchDynamicName part =
     (if startsWith part ''['' \<and> endsWith part '']'' \<and> 2 < length part
         \<and> CHR ''['' \<notin> set (butlast (tl part)) \<and> CHR '']'' \<notin> set (butlast (tl part))
      then Some (butlast (tl part)) else None)"

text \<open>
  Modelled from the spec: \<^verbatim>\<open>matchDeepDynamicRouteName\<close> of \<^verbatim>\<open>../matchers\<close>, which is not
  among the sources. The spec gives the bracket syntax \<^verbatim>\<open>[...name]\<close> for a catch-all
  segment: the whole segment is \<^verbatim>\<open>[...\<close>, a non-empty name without a slash, \<^verbatim>\<open>]\<close>.
\<close>

definition matchDeepDynamicRouteName :: "string \<Rightarrow> string option" where
  "matchDeepDynamicRouteName part =
     (if startsWith part ''[...'' \<and> endsWith part '']'' \<and> 5 < length part
         \<and> CHR ''/'' \<notin> set (butlast (drop 4 part))
      then Some (butlast (drop 4 part)) else None)"

text \<open>
  Modelled from the spec: \<^verbatim>\<open>matchGroupName\<close> of \<^verbatim>\<open>../matchers\<close>, which is not among the
  sources. The spec gives the parenthesis syntax \<^verbatim>\<open>(name)\<close> or \<^verbatim>\<open>(a,b,c)\<close> for a route
  group and has the expander detect the comma-separated list inside the matched
  group: the result is the text between the first opening parenthesis of the path
  and the next closing one, when that text is non-empty and has no slash.
\<close>

definition matchGroupName :: "string \<Rightarrow> string option" where
  "matchGroupName key =
     (let rest = dropWhile (\<lambda>c. c \<noteq> CHR ''('') key in
      if rest = [] then None
      else
        let inner = takeWhile (\<lambda>c. c \<noteq> CHR '')'') (tl rest) in
        if length inner < length (tl rest) \<and> inner \<noteq> [] \<and> CHR ''/'' \<notin> set inner
        then Some inner else None)"

section \<open>Data model\<close>

text \<open>
  \<^verbatim>\<open>Options\<close>, with every absent flag read as false and an absent \<^verbatim>\<open>ignore\<close> as the
  empty list. A regular expression of \<^verbatim>\<open>ignore\<close> is the predicate its \<^verbatim>\<open>test\<close> computes.
\<close>

record Options =
  ignore :: "(string \<Rightarrow> bool) list"
  preserveApiRoutes :: bool
  ignoreRequireErrors :: bool
  ignoreEntryPoints :: bool
  unstable_platformExtensions :: bool
  unstable_stripLoadRoute :: bool
  unstable_alwaysIncludeSitemap :: bool
  unstable_improvedErrorMessages :: bool

definition defaultOptions :: Options where
  "defaultOptions =
     \<lparr>ignore = [], preserveApiRoutes = False, ignoreRequireErrors = False,
      ignoreEntryPoints = False, unstable_platformExtensions = False,
      unstable_stripLoadRoute = False, unstable_alwaysIncludeSitemap = False,
      unstable_improvedErrorMessages = False\<rparr>"

text \<open>
  The two values the module reads from its surroundings: \<^verbatim>\<open>Platform.OS\<close>, and whether
  \<^verbatim>\<open>process.env.NODE_ENV\<close> is \<^verbatim>\<open>'production'\<close>.
\<close>

record Env =
  platformOS :: string
  production :: bool

text \<open>Every \<^verbatim>\<open>throw\<close> of the module, and the TypeError of reading a field of \<^verbatim>\<open>undefined\<close>.\<close>

datatype error =
    LayoutConflict string string string
  | RouteConflict string string string
  | MultipleFilesMatch string
  | InvalidGroupRoute string
  | DeprecatedLayoutRoute string string
  | InvalidPlatformExtension
  | DuplicateGroupName "string list" string
  | NoFallbackPlatformRoute string
  | TypeError

datatype DynamicConvention =
  DynamicConvention (name: string) (deep: bool) (notFound: bool)

text \<open>What \<^verbatim>\<open>loadRoute\<close> of a node loads when the navigation runtime calls it.\<close>

datatype loader =
    ContextModule string bool
  | DefaultNavigator
  | SitemapView
  | UnmatchedView

text \<open>
  A \<^verbatim>\<open>RouteNode\<close>. The nodes the scan creates live in a store, and a directory holds
  the addresses of its nodes: hoisting changes layout nodes in place, and one node
  can be the layout of several directories. Among the children of a node, a layout
  is its address (\<open>Ref\<close>); a view is the copy that hoisting makes of it (\<open>Obj\<close>),
  which nothing changes afterwards. A field that \<^verbatim>\<open>delete\<close> removes is \<open>None\<close>;
  \<^verbatim>\<open>generated\<close> and \<^verbatim>\<open>internal\<close> are false when absent.
\<close>

datatype RouteNode =
  RouteNode (loadRoute: "loader option") (contextKey: string) (route: string)
    (dynamic: "DynamicConvention list option") (children: "child list")
    (entryPoints: "string list option") (generated: bool) (internal: bool)
and child = Ref nat | Obj RouteNode

type_synonym store = "RouteNode list"

section \<open>extrapolateGroups\<close>

text \<open>
  A \<^verbatim>\<open>Set\<close> of strings in insertion order: \<^verbatim>\<open>add\<close> leaves a set that has the key as it
  is.
\<close>

definition setAdd :: "string \<Rightarrow> string list \<Rightarrow> string list" where
  "setAdd k keys = (if k \<in> set keys then keys else keys @ [k])"

text \<open>
  The recursion of \<^verbatim>\<open>extrapolateGroups\<close> need not end (a replacement can leave the key
  as it was), so the function takes the depth of recursion it may use and is \<open>None\<close>
  when that is not enough.
\<close>

fun extrapolateGroups :: "nat \<Rightarrow> string \<Rightarrow> string list \<Rightarrow> (error + string list) option"
and extrapolateEach ::
  "nat \<Rightarrow> string \<Rightarrow> string \<Rightarrow> string list \<Rightarrow> string list \<Rightarrow> (error + string list) option"
where
  "extrapolateGroups 0 k keys = None"
| "extrapolateGroups (Suc n) k keys =
     (case matchGroupName k of
        None \<Rightarrow> Some (Inr (setAdd k keys))
      | Some m \<Rightarrow>
          if m = [] then Some (Inr (setAdd k keys))
          else
            let gs = split m CHR '','' in
            if card (set gs) \<noteq> length gs
            then Some (Inl (DuplicateGroupName gs k))
            else if length gs = 1 then Some (Inr (setAdd k keys))
            else extrapolateEach n k m gs keys)"
| "extrapolateEach n k m [] keys = Some (Inr keys)"
| "extrapolateEach n k m (g # gs) keys =
     (case extrapolateGroups n (replace k m (trim g)) keys of
        None \<Rightarrow> None
      | Some (Inl e) \<Rightarrow> Some (Inl e)
      | Some (Inr keys') \<Rightarrow> extrapolateEach n k m gs keys')"

section \<open>getFileMeta\<close>

record FileMeta =
  key :: string
  name :: string
  specificity :: int
  parts :: "string list"
  dirname :: string
  filename :: string
  isLayout :: bool
  isApi :: bool
  filepathWithoutExtensions :: string

definition validPlatforms :: "string list" where
  "validPlatforms = [''android'', ''ios'', ''windows'', ''osx'', ''native'', ''web'']"

definition getFileMeta :: "Env \<Rightarrow> string \<Rightarrow> Options \<Rightarrow> error + FileMeta" where
  "getFileMeta env key0 options =
     (let key = removeLeadingDotSlash key0;
          parts = split key CHR ''/'';
          dirname = join (butlast parts) ''/'';
          filename = last parts;
          filepathWithoutExtensions = removeSupportedExtensions key;
          filenameWithoutExtensions = removeSupportedExtensions filename;
          isLayout = startsWith filename ''_layout.'';
          isApi = matchesApi key;
          name = (if isLayout then removeLayoutSuffix filepathWithoutExtensions
                  else filepathWithoutExtensions)
      in
      if startsWith filenameWithoutExtensions ''('' \<and> endsWith filenameWithoutExtensions '')''
      then
        (if unstable_improvedErrorMessages options then Inl (InvalidGroupRoute key)
         else Inl (DeprecatedLayoutRoute key filepathWithoutExtensions))
      else
        let filenameParts = split filenameWithoutExtensions CHR ''.'';
            platform = last filenameParts;
            hasPlatform = (platform \<in> set validPlatforms)
        in
        if unstable_platformExtensions options \<and> hasPlatform then
          Inr \<lparr>key = key,
               name = removePlatformSuffix name platform,
               specificity =
                 (if platform = platformOS env then 2
                  else if platform = ''native'' \<and> platformOS env \<noteq> ''web'' then 1
                  else - 1),
               parts = parts, dirname = dirname, filename = filename,
               isLayout = isLayout, isApi = isApi,
               filepathWithoutExtensions = filepathWithoutExtensions\<rparr>
        else if hasPlatform then Inl InvalidPlatformExtension
        else
          Inr \<lparr>key = key, name = name, specificity = 0,
               parts = parts, dirname = dirname, filename = filename,
               isLayout = isLayout, isApi = isApi,
               filepathWithoutExtensions = filepathWithoutExtensions\<rparr>)"

section \<open>getIgnoreList\<close>

definition getIgnoreList :: "Options \<Rightarrow> (string \<Rightarrow> bool) list" where
  "getIgnoreList options =
     (matchesHtml # ignore options)
     @ (if \<not> preserveApiRoutes options then [matchesApi] else [])"

section \<open>generateDynamic\<close>

definition dynamicOfPart :: "string \<Rightarrow> DynamicConvention option" where
  "dynamicOfPart part =
     (if part = ''+not-found'' then Some (DynamicConvention ''+not-found'' True True)
      else
        let deepDynamicName = matchDeepDynamicRouteName part;
            dynamicName =
              (case deepDynamicName of None \<Rightarrow> matchDynamicName part | Some n \<Rightarrow> Some n)
        in
        case dynamicName of
          None \<Rightarrow> None
        | Some n \<Rightarrow>
            if n = [] then None
            else Some (DynamicConvention n
                         (case deepDynamicName of None \<Rightarrow> False | Some d \<Rightarrow> d \<noteq> []) False))"

definition generateDynamic :: "string \<Rightarrow> DynamicConvention list option" where
  "generateDynamic path =
     (let dynamic = List.map_filter dynamicOfPart (split path CHR ''/'') in
      if length dynamic = 0 then None else Some dynamic)"

section \<open>getMostSpecific\<close>

text \<open>
  A sparse array of nodes is a list of optional addresses: \<open>None\<close> is a hole, the
  length of the list is the \<^verbatim>\<open>length\<close> of the array. Reading at \<^verbatim>\<open>length - 1\<close> of the
  empty array gives \<^verbatim>\<open>undefined\<close>, and so does reading a hole; the error message reads
  \<^verbatim>\<open>route.contextKey\<close>, which is a TypeError when \<^verbatim>\<open>route\<close> is \<^verbatim>\<open>undefined\<close>.
\<close>

definition at :: "'a option list \<Rightarrow> nat \<Rightarrow> 'a option" where
  "at xs i = (if i < length xs then xs ! i else None)"

definition getMostSpecific :: "store \<Rightarrow> nat option list \<Rightarrow> error + nat option" where
  "getMostSpecific h routes =
     (let route = (if routes = [] then None else at routes (length routes - 1)) in
      if at routes 0 = None then
        (case route of
           None \<Rightarrow> Inl TypeError
         | Some r \<Rightarrow> Inl (NoFallbackPlatformRoute (contextKey (h ! r))))
      else Inr route)"

section \<open>Directory nodes\<close>

text \<open>
  A \<^verbatim>\<open>Map\<close> keeps its keys in insertion order and \<^verbatim>\<open>set\<close> on a key that is present
  keeps the key's place: an association list, read with \<open>map_of\<close>.
\<close>

fun mapSet :: "'k \<Rightarrow> 'v \<Rightarrow> ('k \<times> 'v) list \<Rightarrow> ('k \<times> 'v) list" where
  "mapSet k v [] = [(k, v)]"
| "mapSet k v ((k', v') # m) = (if k' = k then (k, v) # m else (k', v') # mapSet k v m)"

text \<open>\<^verbatim>\<open>xs[i] = v\<close> on a sparse array: beyond the end, the array grows and leaves holes.\<close>

definition assign :: "'a option list \<Rightarrow> nat \<Rightarrow> 'a \<Rightarrow> 'a option list" where
  "assign xs i v =
     (if i < length xs then xs[i := Some v]
      else xs @ replicate (i - length xs) None @ [Some v])"

datatype DirectoryNode =
  DirectoryNode (layout: "nat option list option") (views: "(string \<times> nat option list) list")
    (subdirectories: "(string \<times> DirectoryNode) list")

definition emptyDirectory :: DirectoryNode where
  "emptyDirectory = DirectoryNode None [] []"

text \<open>
  The walk from the root along \<open>subdirectoryParts\<close> that creates the directories it
  does not find. A leaf of the source is a reference to a directory node; here it is
  the path of that directory from the root.
\<close>

fun walk :: "string list \<Rightarrow> DirectoryNode \<Rightarrow> DirectoryNode" where
  "walk [] d = d"
| "walk (p # ps) d =
     (case map_of (subdirectories d) p of
        None \<Rightarrow>
          DirectoryNode (layout d) (views d)
            (mapSet p (walk ps emptyDirectory) (subdirectories d))
      | Some c \<Rightarrow>
          DirectoryNode (layout d) (views d) (mapSet p (walk ps c) (subdirectories d)))"

text \<open>
  A change of the directory at a path. The path of a leaf always leads to a
  directory, since \<open>walk\<close> created it; were it to lead nowhere, nothing is changed.
\<close>

fun modifyAt ::
  "string list \<Rightarrow> (DirectoryNode \<Rightarrow> error + DirectoryNode) \<Rightarrow> DirectoryNode
     \<Rightarrow> error + DirectoryNode" where
  "modifyAt [] f d = f d"
| "modifyAt (p # ps) f d =
     (case map_of (subdirectories d) p of
        None \<Rightarrow> Inr d
      | Some c \<Rightarrow>
          (case modifyAt ps f c of
             Inl e \<Rightarrow> Inl e
           | Inr c' \<Rightarrow> Inr (DirectoryNode (layout d) (views d) (mapSet p c' (subdirectories d)))))"

section \<open>getDirectoryTree\<close>

text \<open>\<^verbatim>\<open>key.replace(meta.filename, '').split('/').filter(Boolean)\<close>\<close>

definition subdirectoryParts :: "string \<Rightarrow> FileMeta \<Rightarrow> string list" where
  "subdirectoryParts k meta = filter (\<lambda>part. part \<noteq> []) (split (replace k (filename meta) []) CHR ''/'')"

text \<open>The layout branch of the loop body, for one leaf.\<close>

definition placeLayout ::
  "store \<Rightarrow> string \<Rightarrow> FileMeta \<Rightarrow> nat \<Rightarrow> DirectoryNode \<Rightarrow> error + DirectoryNode" where
  "placeLayout h filePath meta node leaf =
     (let slots = (case layout leaf of None \<Rightarrow> [] | Some l \<Rightarrow> l) in
      case at slots (nat (specificity meta)) of
        Some existing \<Rightarrow>
          Inl (LayoutConflict filePath (contextKey (h ! existing)) (dirname meta))
      | None \<Rightarrow>
          Inr (DirectoryNode (Some (assign slots (nat (specificity meta)) node))
                 (views leaf) (subdirectories leaf)))"

text \<open>The view branch of the loop body, for one leaf.\<close>

definition placeView ::
  "Env \<Rightarrow> Options \<Rightarrow> store \<Rightarrow> string \<Rightarrow> FileMeta \<Rightarrow> nat \<Rightarrow> DirectoryNode
     \<Rightarrow> error + DirectoryNode" where
  "placeView env options h filePath meta node leaf =
     (let nodes = (case map_of (views leaf) (name meta) of None \<Rightarrow> [] | Some ns \<Rightarrow> ns);
          stored = DirectoryNode (layout leaf)
                     (mapSet (name meta) (assign nodes (nat (specificity meta)) node) (views leaf))
                     (subdirectories leaf)
      in
      if production env then Inr stored
      else
        case at nodes (nat (specificity meta)) of
          Some existing \<Rightarrow>
            if unstable_improvedErrorMessages options
            then Inl (RouteConflict filePath (contextKey (h ! existing)) (dirname meta))
            else Inl (MultipleFilesMatch (filepathWithoutExtensions meta))
        | None \<Rightarrow> Inr stored)"

text \<open>One function applied to every leaf in turn; the first error ends the loop.\<close>

fun forLeaves ::
  "string list list \<Rightarrow> (DirectoryNode \<Rightarrow> error + DirectoryNode) \<Rightarrow> DirectoryNode
     \<Rightarrow> error + DirectoryNode" where
  "forLeaves [] f d = Inr d"
| "forLeaves (leaf # leaves) f d =
     (case modifyAt leaf f d of
        Inl e \<Rightarrow> Inl e
      | Inr d' \<Rightarrow> forLeaves leaves f d')"

text \<open>
  The state of the scan: the directory tree, the store of the nodes created so far
  (a node's address is its position), and the two flags.
\<close>

record DirectoryTree =
  directoryTree :: DirectoryNode
  nodes :: store
  hasRoutes :: bool
  hasLayout :: bool

text \<open>The body of the loop over \<^verbatim>\<open>contextModule.keys()\<close>, for one file path.\<close>

definition scanFile ::
  "nat \<Rightarrow> Env \<Rightarrow> Options \<Rightarrow> string \<Rightarrow> DirectoryTree \<Rightarrow> (error + DirectoryTree) option" where
  "scanFile fuel env options filePath st =
     (if list_ex (\<lambda>regex. regex filePath) (getIgnoreList options) then Some (Inr st)
      else
        case getFileMeta env filePath options of
          Inl e \<Rightarrow> Some (Inl e)
        | Inr meta \<Rightarrow>
            if specificity meta < 0 then Some (Inr st)
            else
              (case extrapolateGroups fuel (key meta) [] of
                None \<Rightarrow> None
              | Some (Inl e) \<Rightarrow> Some (Inl e)
              | Some (Inr keys) \<Rightarrow>
                  let leaves = map (\<lambda>k. subdirectoryParts k meta) keys;
                      walked = fold walk leaves (directoryTree st);
                      node = length (nodes st);
                      h = nodes st @
                            [RouteNode (Some (ContextModule filePath (ignoreRequireErrors options)))
                               filePath (name meta) None [] (Some [filePath]) False False]
                  in
                  if isLayout meta then
                    (case forLeaves leaves (placeLayout h filePath meta node) walked of
                       Inl e \<Rightarrow> Some (Inl e)
                     | Inr d \<Rightarrow>
                         Some (Inr \<lparr>directoryTree = d, nodes = h, hasRoutes = hasRoutes st,
                                    hasLayout = (hasLayout st \<or> 0 < length leaves)\<rparr>))
                  else if isApi meta then
                    Some (Inr \<lparr>directoryTree = walked, nodes = h, hasRoutes = hasRoutes st,
                               hasLayout = hasLayout st\<rparr>)
                  else
                    (case forLeaves leaves (placeView env options h filePath meta node) walked of
                       Inl e \<Rightarrow> Some (Inl e)
                     | Inr d \<Rightarrow>
                         Some (Inr \<lparr>directoryTree = d, nodes = h,
                                    hasRoutes = (hasRoutes st \<or> 0 < length leaves),
                                    hasLayout = hasLayout st\<rparr>))))"

fun scanFiles ::
  "nat \<Rightarrow> Env \<Rightarrow> Options \<Rightarrow> string list \<Rightarrow> DirectoryTree \<Rightarrow> (error + DirectoryTree) option" where
  "scanFiles fuel env options [] st = Some (Inr st)"
| "scanFiles fuel env options (filePath # filePaths) st =
     (case scanFile fuel env options filePath st of
        None \<Rightarrow> None
      | Some (Inl e) \<Rightarrow> Some (Inl e)
      | Some (Inr st') \<Rightarrow> scanFiles fuel env options filePaths st')"

definition defaultLayout :: RouteNode where
  "defaultLayout =
     RouteNode (Some DefaultNavigator) ''./_layout.tsx'' [] None []
       (Some [''expo-router/build/views/Navigator.js'']) True False"

text \<open>
  \<open>contextModule\<close> is the list \<^verbatim>\<open>contextModule.keys()\<close> enumerates; loading a module
  is no part of the resolution.
\<close>

definition getDirectoryTree ::
  "nat \<Rightarrow> Env \<Rightarrow> string list \<Rightarrow> Options \<Rightarrow> (error + DirectoryTree) option" where
  "getDirectoryTree fuel env contextModule options =
     (case scanFiles fuel env options contextModule
             \<lparr>directoryTree = emptyDirectory, nodes = [], hasRoutes = False, hasLayout = False\<rparr> of
        None \<Rightarrow> None
      | Some (Inl e) \<Rightarrow> Some (Inl e)
      | Some (Inr st) \<Rightarrow>
          if layout (directoryTree st) = None then
            Some (Inr (st\<lparr>directoryTree :=
                            DirectoryNode (Some [Some (length (nodes st))])
                              (views (directoryTree st)) (subdirectories (directoryTree st)),
                          nodes := nodes st @ [defaultLayout]\<rparr>))
          else Some (Inr st))"

section \<open>Generated routes\<close>

definition sitemapRoute :: RouteNode where
  "sitemapRoute =
     RouteNode (Some SitemapView) ''./_sitemap.tsx'' ''_sitemap'' None []
       (Some [''expo-router/build/views/Sitemap.js'']) True True"

definition notFoundRoute :: RouteNode where
  "notFoundRoute =
     RouteNode (Some UnmatchedView) ''./+not-found.tsx'' ''+not-found''
       (Some [DynamicConvention ''+not-found'' True True]) []
       (Some [''expo-router/build/views/Unmatched.js'']) True True"

definition appendSitemapRoute :: "DirectoryNode \<times> store \<Rightarrow> DirectoryNode \<times> store" where
  "appendSitemapRoute ds =
     (case ds of (d, h) \<Rightarrow>
        if map_of (views d) ''_sitemap'' \<noteq> None then (d, h)
        else
          (DirectoryNode (layout d) (mapSet ''_sitemap'' [Some (length h)] (views d))
             (subdirectories d),
           h @ [sitemapRoute]))"

definition appendNotFoundRoute :: "DirectoryNode \<times> store \<Rightarrow> DirectoryNode \<times> store" where
  "appendNotFoundRoute ds =
     (case ds of (d, h) \<Rightarrow>
        if map_of (views d) ''+not-found'' \<noteq> None then (d, h)
        else
          (DirectoryNode (layout d) (mapSet ''+not-found'' [Some (length h)] (views d))
             (subdirectories d),
           h @ [notFoundRoute]))"

section \<open>hoistRoutesToNearestLayout\<close>

text \<open>\<^verbatim>\<open>parent.children.push(c)\<close> on the node at address \<open>p\<close>.\<close>

definition pushChild :: "nat \<Rightarrow> child \<Rightarrow> store \<Rightarrow> store" where
  "pushChild p c h =
     h[p := (case h ! p of
               RouteNode lr ck rt dy ch ep ge it \<Rightarrow> RouteNode lr ck rt dy (ch @ [c]) ep ge it)]"

text \<open>\<^verbatim>\<open>Array.from(new Set(xs))\<close>: the first occurrence of every element, in order.\<close>

fun unique :: "string list \<Rightarrow> string list \<Rightarrow> string list" where
  "unique seen [] = seen"
| "unique seen (x # xs) = unique (setAdd x seen) xs"

text \<open>
  The first part of the function: the layout of the directory, when it has one,
  becomes a child of the parent and the parent of what follows. The result is the
  new parent, the entry points and the path to remove for what follows, and the
  store.
\<close>

definition hoistLayout ::
  "nat option list \<Rightarrow> Options \<Rightarrow> nat option \<Rightarrow> string list \<Rightarrow> string \<Rightarrow> store
     \<Rightarrow> error + (nat \<times> string list \<times> string \<times> store)" where
  "hoistLayout slots options parent eps pathToRemove h =
     (case getMostSpecific h slots of
        Inl e \<Rightarrow> Inl e
      | Inr None \<Rightarrow> Inl TypeError
      | Inr (Some l) \<Rightarrow>
          let h1 = (case parent of None \<Rightarrow> h | Some p \<Rightarrow> pushChild p (Ref l) h) in
          case h1 ! l of
            RouteNode lr ck rt dy ch ep ge it \<Rightarrow>
              let newRoute = replace rt pathToRemove [];
                  pathToRemove' = (if rt \<noteq> [] then rt @ ''/'' else []);
                  eps' = (case ep of None \<Rightarrow> eps | Some own \<Rightarrow> eps @ own)
              in
              Inr (l, eps', pathToRemove',
                   h1[l := RouteNode (if unstable_stripLoadRoute options then None else lr)
                             ck newRoute (generateDynamic newRoute) ch None ge it]))"

text \<open>The copy of a view that becomes a child of the parent.\<close>

definition hoistView :: "Options \<Rightarrow> string list \<Rightarrow> string \<Rightarrow> RouteNode \<Rightarrow> RouteNode" where
  "hoistView options eps pathToRemove v =
     (case v of
        RouteNode lr ck rt dy ch ep ge it \<Rightarrow>
          let nm = replace rt pathToRemove [] in
          RouteNode (if unstable_stripLoadRoute options then None else lr)
            ck nm (generateDynamic nm) ch
            (if ignoreEntryPoints options then None
             else Some (unique [] (eps @ (case ep of None \<Rightarrow> [] | Some own \<Rightarrow> own))))
            ge it)"

text \<open>The loop over \<^verbatim>\<open>directory.views.values()\<close>.\<close>

fun hoistViews ::
  "(string \<times> nat option list) list \<Rightarrow> Options \<Rightarrow> nat \<Rightarrow> string list \<Rightarrow> string \<Rightarrow> store
     \<Rightarrow> error + store" where
  "hoistViews [] options parent eps pathToRemove h = Inr h"
| "hoistViews ((k, routes) # vs) options parent eps pathToRemove h =
     (case getMostSpecific h routes of
        Inl e \<Rightarrow> Inl e
      | Inr None \<Rightarrow> Inl TypeError
      | Inr (Some v) \<Rightarrow>
          hoistViews vs options parent eps pathToRemove
            (pushChild parent (Obj (hoistView options eps pathToRemove (h ! v))) h))"

text \<open>
  The function itself, with the loop over \<^verbatim>\<open>directory.subdirectories.values()\<close> as a
  second function. The result is the parent the source returns (\<open>None\<close> for
  \<^verbatim>\<open>null\<close>) and the store.
\<close>

fun hoistRoutesToNearestLayout ::
  "DirectoryNode \<Rightarrow> Options \<Rightarrow> nat option \<Rightarrow> string list \<Rightarrow> string \<Rightarrow> store
     \<Rightarrow> error + (nat option \<times> store)"
and hoistSubdirectories ::
  "(string \<times> DirectoryNode) list \<Rightarrow> Options \<Rightarrow> nat \<Rightarrow> string list \<Rightarrow> string \<Rightarrow> store
     \<Rightarrow> error + store"
where
  "hoistRoutesToNearestLayout (DirectoryNode lay vs subs) options parent eps pathToRemove h =
     (case (case lay of
              None \<Rightarrow> Inr (parent, eps, pathToRemove, h)
            | Some slots \<Rightarrow>
                (case hoistLayout slots options parent eps pathToRemove h of
                   Inl e \<Rightarrow> Inl e
                 | Inr (l, eps', pathToRemove', h') \<Rightarrow> Inr (Some l, eps', pathToRemove', h'))) of
        Inl e \<Rightarrow> Inl e
      | Inr (None, eps1, pathToRemove1, h1) \<Rightarrow> Inr (None, h1)
      | Inr (Some p, eps1, pathToRemove1, h1) \<Rightarrow>
          (case hoistViews vs options p eps1 pathToRemove1 h1 of
             Inl e \<Rightarrow> Inl e
           | Inr h2 \<Rightarrow>
               (case hoistSubdirectories subs options p eps1 pathToRemove1 h2 of
                  Inl e \<Rightarrow> Inl e
                | Inr h3 \<Rightarrow> Inr (Some p, h3))))"
| "hoistSubdirectories [] options p eps pathToRemove h = Inr h"
| "hoistSubdirectories ((k, c) # subs) options p eps pathToRemove h =
     (case hoistRoutesToNearestLayout c options (Some p) eps pathToRemove h of
        Inl e \<Rightarrow> Inl e
      | Inr (r, h') \<Rightarrow> hoistSubdirectories subs options p eps pathToRemove h')"

section \<open>getRoutes\<close>

text \<open>
  The result is the error raised, or \<open>None\<close> for \<^verbatim>\<open>null\<close>, or the address of the root
  node with the store that holds the layout nodes of the tree.
\<close>

definition getRoutes ::
  "nat \<Rightarrow> Env \<Rightarrow> string list \<Rightarrow> Options \<Rightarrow> (error + (nat \<times> store) option) option" where
  "getRoutes fuel env contextModule options =
     (case getDirectoryTree fuel env contextModule options of
        None \<Rightarrow> None
      | Some (Inl e) \<Rightarrow> Some (Inl e)
      | Some (Inr t) \<Rightarrow>
          if \<not> hasLayout t \<and> \<not> hasRoutes t then Some (Inr None)
          else
            let ds0 = (directoryTree t, nodes t);
                ds1 = (if hasRoutes t \<or> unstable_alwaysIncludeSitemap options
                       then appendSitemapRoute ds0 else ds0);
                ds2 = appendNotFoundRoute ds1
            in
            (case hoistRoutesToNearestLayout (fst ds2) options None [] [] (snd ds2) of
               Inl e \<Rightarrow> Some (Inl e)
             | Inr (None, h) \<Rightarrow> Some (Inr None)
             | Inr (Some root, h) \<Rightarrow> Some (Inr (Some (root, h)))))"

text \<open>
  The tree below a node, with every address replaced by the node the store holds
  there, down to a given depth (a store can hold a node among its own descendants).
\<close>

fun tree :: "nat \<Rightarrow> store \<Rightarrow> RouteNode \<Rightarrow> RouteNode"
and treeChild :: "nat \<Rightarrow> store \<Rightarrow> child \<Rightarrow> child"
where
  "tree depth h (RouteNode lr ck rt dy ch ep ge it) =
     RouteNode lr ck rt dy (map (treeChild depth h) ch) ep ge it"
| "treeChild depth h (Obj n) = Obj n"
| "treeChild 0 h (Ref r) = Ref r"
| "treeChild (Suc depth) h (Ref r) = Obj (tree depth h (h ! r))"

section \<open>Predicates for the properties\<close>

text \<open>
  The test \<open>getFileMeta\<close> makes for a layout file, on the file path a node keeps as
  its \<open>contextKey\<close>: the last segment of the path starts with \<^verbatim>\<open>_layout.\<close>.
\<close>

definition isLayoutKey :: "string \<Rightarrow> bool" where
  "isLayoutKey filePath =
     startsWith (last (split (removeLeadingDotSlash filePath) CHR ''/'')) ''_layout.''"

text \<open>
  What hoisting keeps of a store: its size, the \<open>contextKey\<close> and \<open>generated\<close> of every
  node, the children every node has, and an empty route.
\<close>

definition grows :: "store \<Rightarrow> store \<Rightarrow> bool" where
  "grows h h' =
     (length h' = length h
      \<and> (\<forall>i. contextKey (h' ! i) = contextKey (h ! i)
             \<and> generated (h' ! i) = generated (h ! i)
             \<and> set (children (h ! i)) \<subseteq> set (children (h' ! i))
             \<and> (route (h ! i) = [] \<longrightarrow> route (h' ! i) = [])))"

text \<open>
  What the scan keeps true of the root directory: the layout slots hold addresses of
  nodes of layout files, the view slots under a name hold addresses of nodes of
  other files whose route is that name.
\<close>

definition slotsOk :: "nat option list option \<Rightarrow> (string \<times> nat option list) list \<Rightarrow> store \<Rightarrow> bool" where
  "slotsOk lay vs h =
     ((\<forall>slots r. lay = Some slots \<longrightarrow> Some r \<in> set slots
          \<longrightarrow> r < length h \<and> isLayoutKey (contextKey (h ! r)))
      \<and> (\<forall>k ns r. (k, ns) \<in> set vs \<longrightarrow> Some r \<in> set ns
          \<longrightarrow> r < length h \<and> \<not> isLayoutKey (contextKey (h ! r)) \<and> route (h ! r) = k))"

section \<open>Properties of getMostSpecific\<close>

lemma at_last: "routes \<noteq> [] \<Longrightarrow> at routes (length routes - 1) = last routes"
  by (simp add: at_def last_conv_nth)

lemma at_populated_bound: "at routes j \<noteq> None \<Longrightarrow> j \<le> length routes - 1"
  by (cases "j < length routes") (auto simp: at_def)

text \<open>
  An array that starts empty and grows by assignment at an index is never empty
  afterwards, and its last slot is populated.
\<close>

lemma assign_last: "assign xs i v \<noteq> [] \<and> (xs = [] \<or> last xs \<noteq> None \<longrightarrow> last (assign xs i v) \<noteq> None)"
proof (cases "i < length xs")
  case True
  then have "xs \<noteq> []"
    by auto
  then show ?thesis
    using True by (auto simp: assign_def last_list_update)
next
  case False
  then show ?thesis
    by (simp add: assign_def)
qed

text \<open>
  C4. For a non-empty sparse candidate array (its last slot populated, as in every
  array that grows by assignment at an index), the candidate \<open>getMostSpecific\<close>
  returns is the one at the highest populated index, and the missing-fallback error
  is raised exactly when index 0 is a hole while a higher index is populated.
\<close>

theorem getMostSpecific_highest_populated:
  assumes "routes \<noteq> []" and "last routes \<noteq> None"
  shows "(\<forall>c. getMostSpecific h routes = Inr c \<longrightarrow>
            (\<exists>i r. c = Some r \<and> at routes i = Some r
                \<and> (\<forall>j. at routes j \<noteq> None \<longrightarrow> j \<le> i)))
       \<and> ((\<exists>k. getMostSpecific h routes = Inl (NoFallbackPlatformRoute k))
            \<longleftrightarrow> (at routes 0 = None \<and> (\<exists>i. 0 < i \<and> at routes i \<noteq> None)))
       \<and> (at routes 0 \<noteq> None \<longrightarrow> (\<exists>r. getMostSpecific h routes = Inr (Some r)))"
proof -
  obtain r where r: "last routes = Some r"
    using assms(2) by auto
  have top: "at routes (length routes - 1) = Some r"
    using at_last [OF assms(1)] r by simp
  have bound: "\<And>j. at routes j \<noteq> None \<Longrightarrow> j \<le> length routes - 1"
    by (rule at_populated_bound)
  show ?thesis
  proof (cases "at routes 0 = None")
    case True
    then have res: "getMostSpecific h routes = Inl (NoFallbackPlatformRoute (contextKey (h ! r)))"
      using assms(1) top by (auto simp: getMostSpecific_def Let_def)
    have "0 < length routes - 1"
      using True top by (cases "length routes - 1") auto
    then have "0 < length routes - 1 \<and> at routes (length routes - 1) \<noteq> None"
      using top by simp
    then have "\<exists>i. 0 < i \<and> at routes i \<noteq> None"
      by (rule exI)
    then show ?thesis
      using True res by simp
  next
    case False
    then have res: "getMostSpecific h routes = Inr (Some r)"
      using assms(1) top by (auto simp: getMostSpecific_def Let_def)
    show ?thesis
      using False res top bound by auto
  qed
qed

theorem getMostSpecific_highest_populated_witness:
  "[None, Some (0::nat)] \<noteq> [] \<and> last [None, Some (0::nat)] \<noteq> None
   \<and> getMostSpecific [RouteNode None ''./a.ios.tsx'' ''a'' None [] None False False]
        [None, Some 0] = Inl (NoFallbackPlatformRoute ''./a.ios.tsx'')
   \<and> getMostSpecific [] [Some 4, None, Some 7] = Inr (Some 7)"
  using getMostSpecific_highest_populated
          [of "[None, Some 0]" "[RouteNode None ''./a.ios.tsx'' ''a'' None [] None False False]"]
        getMostSpecific_highest_populated [of "[Some 4, None, Some 7]" "[]"]
  by (simp add: getMostSpecific_def at_def)

section \<open>Properties of generateDynamic\<close>

lemma generateDynamic_not_empty: "generateDynamic path \<noteq> Some []"
  by (simp add: generateDynamic_def Let_def)

lemma map_filter_all_None: "(\<forall>x \<in> set xs. f x = None) \<Longrightarrow> List.map_filter f xs = []"
  by (induction xs) (simp_all add: List.map_filter_simps)

lemma dynamicOfPart_None:
  "part \<noteq> ''+not-found'' \<Longrightarrow> matchDeepDynamicRouteName part = None
     \<Longrightarrow> matchDynamicName part = None \<Longrightarrow> dynamicOfPart part = None"
  by (simp add: dynamicOfPart_def)

lemma generateDynamic_id_rest:
  "generateDynamic ''a/[id]/[...rest]'' =
     Some [DynamicConvention ''id'' False False, DynamicConvention ''rest'' True False]"
  by code_simp

lemma generateDynamic_a_b: "generateDynamic ''a/b'' = None"
  by code_simp

text \<open>
  C8. The path \<^verbatim>\<open>a/[id]/[...rest]\<close> has the dynamic segments \<open>id\<close> (not deep) and
  \<open>rest\<close> (deep), in this order; the path \<^verbatim>\<open>a/b\<close> has none, and the result is \<open>None\<close>;
  the result is never the empty sequence, and it is \<open>None\<close> for every path none of
  whose segments is the not-found marker, a catch-all or a dynamic segment.
\<close>

theorem generateDynamic_segments:
  "generateDynamic ''a/[id]/[...rest]'' =
       Some [DynamicConvention ''id'' False False, DynamicConvention ''rest'' True False]
   \<and> generateDynamic ''a/b'' = None
   \<and> generateDynamic path \<noteq> Some []
   \<and> ((\<forall>part \<in> set (split path CHR ''/'').
          part \<noteq> ''+not-found'' \<and> matchDeepDynamicRouteName part = None
          \<and> matchDynamicName part = None)
        \<longrightarrow> generateDynamic path = None)"
proof -
  have "generateDynamic path = None"
    if "\<forall>part \<in> set (split path CHR ''/'').
          part \<noteq> ''+not-found'' \<and> matchDeepDynamicRouteName part = None
          \<and> matchDynamicName part = None"
  proof -
    have "\<forall>part \<in> set (split path CHR ''/''). dynamicOfPart part = None"
      using that by (simp add: dynamicOfPart_None)
    then have "List.map_filter dynamicOfPart (split path CHR ''/'') = []"
      by (rule map_filter_all_None)
    then show ?thesis
      by (simp add: generateDynamic_def)
  qed
  then show ?thesis
    using generateDynamic_id_rest generateDynamic_a_b generateDynamic_not_empty by blast
qed

theorem generateDynamic_segments_witness:
  "split ''x/(g)/y'' CHR ''/'' = [''x'', ''(g)'', ''y'']
   \<and> matchDeepDynamicRouteName ''x'' = None \<and> matchDynamicName ''x'' = None
   \<and> matchDeepDynamicRouteName ''(g)'' = None \<and> matchDynamicName ''(g)'' = None
   \<and> matchDeepDynamicRouteName ''y'' = None \<and> matchDynamicName ''y'' = None
   \<and> generateDynamic ''x/(g)/y'' = None"
proof -
  have h: "\<forall>part \<in> set (split ''x/(g)/y'' CHR ''/'').
          part \<noteq> ''+not-found'' \<and> matchDeepDynamicRouteName part = None
          \<and> matchDynamicName part = None"
    by (simp add: matchDeepDynamicRouteName_def matchDynamicName_def startsWith_def)
  have "generateDynamic ''x/(g)/y'' = None"
    using h generateDynamic_segments [of "''x/(g)/y''"] by blast
  then show ?thesis
    by (simp add: matchDeepDynamicRouteName_def matchDynamicName_def startsWith_def)
qed

section \<open>Properties of getFileMeta\<close>

text \<open>
  C5, as the code has it. When \<open>getFileMeta\<close> returns, the last dot-segment of the
  extension-stripped file name decides the rank: a known platform identifier is
  accepted with platform extensions only, and then the current platform gets 2, the
  identifier \<open>native\<close> on a platform other than \<open>web\<close> gets 1, every other known
  identifier gets the skip value \<open>-1\<close>; a file with no platform suffix gets 0, the
  lowest rank and not the middle one.
\<close>

theorem getFileMeta_specificity:
  assumes "getFileMeta env k options = Inr meta"
  shows "specificity meta =
           (let platform =
                  last (split (removeSupportedExtensions
                                 (last (split (removeLeadingDotSlash k) CHR ''/''))) CHR ''.'')
            in if platform \<in> set validPlatforms
               then (if platform = platformOS env then 2
                     else if platform = ''native'' \<and> platformOS env \<noteq> ''web'' then 1
                     else - 1)
               else 0)
         \<and> (last (split (removeSupportedExtensions
                           (last (split (removeLeadingDotSlash k) CHR ''/''))) CHR ''.'')
               \<in> set validPlatforms
             \<longrightarrow> unstable_platformExtensions options)"
  using assms
  by (auto simp: getFileMeta_def Let_def split: if_splits)

theorem getFileMeta_specificity_witness:
  "getFileMeta \<lparr>platformOS = ''ios'', production = False\<rparr> ''./index.native.tsx''
     (defaultOptions\<lparr>unstable_platformExtensions := True\<rparr>) =
     Inr \<lparr>key = ''index.native.tsx'', name = ''index'', specificity = 1,
          parts = [''index.native.tsx''], dirname = [],
          filename = ''index.native.tsx'', isLayout = False, isApi = False,
          filepathWithoutExtensions = ''index.native''\<rparr>
   \<and> getFileMeta \<lparr>platformOS = ''ios'', production = False\<rparr> ''./index.tsx''
       (defaultOptions\<lparr>unstable_platformExtensions := True\<rparr>) =
       Inr \<lparr>key = ''index.tsx'', name = ''index'', specificity = 0,
            parts = [''index.tsx''], dirname = [], filename = ''index.tsx'',
            isLayout = False, isApi = False,
            filepathWithoutExtensions = ''index''\<rparr>
   \<and> last (split (removeSupportedExtensions
                    (last (split (removeLeadingDotSlash ''./index.native.tsx'') CHR ''/'')))
              CHR ''.'') = ''native''
   \<and> last (split (removeSupportedExtensions
                    (last (split (removeLeadingDotSlash ''./index.tsx'') CHR ''/'')))
              CHR ''.'') = ''index''"
proof -
  let ?env = "\<lparr>platformOS = ''ios'', production = False\<rparr>"
  let ?opt = "defaultOptions\<lparr>unstable_platformExtensions := True\<rparr>"
  let ?native = "\<lparr>key = ''index.native.tsx'', name = ''index'', specificity = 1,
          parts = [''index.native.tsx''], dirname = [],
          filename = ''index.native.tsx'', isLayout = False, isApi = False,
          filepathWithoutExtensions = ''index.native''\<rparr>"
  let ?plain = "\<lparr>key = ''index.tsx'', name = ''index'', specificity = 0,
            parts = [''index.tsx''], dirname = [], filename = ''index.tsx'',
            isLayout = False, isApi = False,
            filepathWithoutExtensions = ''index''\<rparr>"
  have m1: "getFileMeta ?env ''./index.native.tsx'' ?opt = Inr ?native"
    by code_simp
  have m2: "getFileMeta ?env ''./index.tsx'' ?opt = Inr ?plain"
    by code_simp
  have p1: "last (split (removeSupportedExtensions
                    (last (split (removeLeadingDotSlash ''./index.native.tsx'') CHR ''/'')))
              CHR ''.'') = ''native''"
    by code_simp
  have p2: "last (split (removeSupportedExtensions
                    (last (split (removeLeadingDotSlash ''./index.tsx'') CHR ''/'')))
              CHR ''.'') = ''index''"
    by code_simp
  note r1 = getFileMeta_specificity [OF m1] and r2 = getFileMeta_specificity [OF m2]
  show ?thesis
    using m1 m2 p1 p2 r1 r2 by blast
qed

text \<open>
  C5 as stated fails: on \<open>ios\<close> with platform extensions, \<^verbatim>\<open>index.tsx\<close> gets rank 0
  while \<^verbatim>\<open>index.native.tsx\<close> gets the middle rank 1.
\<close>

theorem getFileMeta_default_rank_counterexample:
  "\<exists>plain native.
     getFileMeta \<lparr>platformOS = ''ios'', production = False\<rparr> ''./index.tsx''
       (defaultOptions\<lparr>unstable_platformExtensions := True\<rparr>) = Inr plain
     \<and> getFileMeta \<lparr>platformOS = ''ios'', production = False\<rparr> ''./index.native.tsx''
         (defaultOptions\<lparr>unstable_platformExtensions := True\<rparr>) = Inr native
     \<and> specificity plain = 0 \<and> specificity native = 1
     \<and> specificity plain \<noteq> specificity native"
proof -
  let ?env = "\<lparr>platformOS = ''ios'', production = False\<rparr>"
  let ?opt = "defaultOptions\<lparr>unstable_platformExtensions := True\<rparr>"
  let ?native = "\<lparr>key = ''index.native.tsx'', name = ''index'', specificity = 1,
          parts = [''index.native.tsx''], dirname = [],
          filename = ''index.native.tsx'', isLayout = False, isApi = False,
          filepathWithoutExtensions = ''index.native''\<rparr>"
  let ?plain = "\<lparr>key = ''index.tsx'', name = ''index'', specificity = 0,
            parts = [''index.tsx''], dirname = [], filename = ''index.tsx'',
            isLayout = False, isApi = False,
            filepathWithoutExtensions = ''index''\<rparr>"
  have m1: "getFileMeta ?env ''./index.native.tsx'' ?opt = Inr ?native"
    by code_simp
  have m2: "getFileMeta ?env ''./index.tsx'' ?opt = Inr ?plain"
    by code_simp
  have "specificity ?plain = 0 \<and> specificity ?native = 1
        \<and> specificity ?plain \<noteq> specificity ?native"
    by simp
  then show ?thesis
    using m1 m2 by blast
qed

section \<open>More depth of recursion changes no result\<close>

lemma extrapolate_mono_aux:
  "(\<forall>r m. extrapolateGroups n k keys = Some r \<longrightarrow> n \<le> m \<longrightarrow> extrapolateGroups m k keys = Some r)"
  "(\<forall>r m. extrapolateEach n k mt gs keys = Some r \<longrightarrow> n \<le> m \<longrightarrow> extrapolateEach m k mt gs keys = Some r)"
proof (induction n k keys and n k mt gs keys rule: extrapolateGroups_extrapolateEach.induct)
  case (1 k keys)
  then show ?case by simp
next
  case (2 n k keys)
  show ?case
  proof (intro allI impI)
    fix r m
    assume res: "extrapolateGroups (Suc n) k keys = Some r" and le: "Suc n \<le> m"
    then obtain m' where m: "m = Suc m'" and le': "n \<le> m'"
      by (cases m) auto
    show "extrapolateGroups m k keys = Some r"
    proof (cases "matchGroupName k")
      case None
      then show ?thesis using res m by simp
    next
      case (Some mt)
      show ?thesis
      proof (cases "mt = [] \<or> card (set (split mt CHR '','')) \<noteq> length (split mt CHR '','')
                     \<or> length (split mt CHR '','') = 1")
        case True
        then show ?thesis using res m Some by (auto simp: Let_def split: if_splits)
      next
        case False
        then have each: "extrapolateEach n k mt (split mt CHR '','') keys = Some r"
          using res Some by (simp add: Let_def)
        have "extrapolateEach m' k mt (split mt CHR '','') keys = Some r"
          using "2.IH" [OF Some _ refl] False each le' by auto
        then show ?thesis using m Some False by (simp add: Let_def)
      qed
    qed
  qed
next
  case (3 n k m keys)
  then show ?case by simp
next
  case (4 n k m g gs keys)
  show ?case
  proof (intro allI impI)
    fix r m'
    assume res: "extrapolateEach n k m (g # gs) keys = Some r" and le: "n \<le> m'"
    show "extrapolateEach m' k m (g # gs) keys = Some r"
    proof (cases "extrapolateGroups n (replace k m (trim g)) keys")
      case None
      then show ?thesis using res by simp
    next
      case (Some a)
      then have first: "extrapolateGroups m' (replace k m (trim g)) keys = Some a"
        using "4.IH"(1) le by blast
      show ?thesis
      proof (cases a)
        case (Inl e)
        then show ?thesis using res Some first by auto
      next
        case (Inr keys')
        then have "extrapolateEach n k m gs keys' = Some r"
          using res Some by simp
        then have "extrapolateEach m' k m gs keys' = Some r"
          using "4.IH"(2) [OF Some Inr] le by blast
        then show ?thesis using first Inr by simp
      qed
    qed
  qed
qed

lemma extrapolateGroups_mono:
  "extrapolateGroups n k keys = Some r \<Longrightarrow> n \<le> m \<Longrightarrow> extrapolateGroups m k keys = Some r"
  using extrapolate_mono_aux(1) by blast

lemma scanFile_mono:
  "scanFile n env options filePath st = Some r \<Longrightarrow> n \<le> m
     \<Longrightarrow> scanFile m env options filePath st = Some r"
  unfolding scanFile_def
  by (auto split: if_splits sum.splits option.splits dest: extrapolateGroups_mono)

lemma scanFiles_mono:
  "scanFiles n env options filePaths st = Some r \<Longrightarrow> n \<le> m
     \<Longrightarrow> scanFiles m env options filePaths st = Some r"
proof (induction filePaths arbitrary: st)
  case Nil
  then show ?case by simp
next
  case (Cons filePath filePaths)
  from Cons.prems obtain a where a: "scanFile n env options filePath st = Some a"
    by (auto split: option.splits)
  then have a': "scanFile m env options filePath st = Some a"
    using Cons.prems(2) by (rule scanFile_mono)
  show ?case
  proof (cases a)
    case (Inl e)
    then show ?thesis using Cons.prems(1) a a' by auto
  next
    case (Inr st')
    then show ?thesis using Cons.prems a a' Cons.IH [of st'] by auto
  qed
qed

lemma getDirectoryTree_mono:
  "getDirectoryTree n env contextModule options = Some r \<Longrightarrow> n \<le> m
     \<Longrightarrow> getDirectoryTree m env contextModule options = Some r"
  unfolding getDirectoryTree_def
  by (auto split: option.splits sum.splits if_splits dest: scanFiles_mono)


section \<open>The conflict policy of getDirectoryTree\<close>





lemma map_of_mapSet: "map_of (mapSet k v m) k = Some v"
  by (induction m) auto






section \<open>Group expansion\<close>

lemma group_file_tree:
  "getDirectoryTree 2 \<lparr>platformOS = os, production = False\<rparr> [''./(a,b)/x.tsx''] defaultOptions =
     Some (Inr \<lparr>directoryTree =
                  DirectoryNode (Some [Some 1]) []
                    [(''(a)'', DirectoryNode None [(''(a,b)/x'', [Some 0])] []),
                     (''(b)'', DirectoryNode None [(''(a,b)/x'', [Some 0])] [])],
                nodes =
                  [RouteNode (Some (ContextModule ''./(a,b)/x.tsx'' False))
                     ''./(a,b)/x.tsx'' ''(a,b)/x'' None []
                     (Some [''./(a,b)/x.tsx'']) False False,
                   RouteNode (Some DefaultNavigator) ''./_layout.tsx'' [] None []
                     (Some [''expo-router/build/views/Navigator.js'']) True False],
                hasRoutes = True, hasLayout = False\<rparr>)"
  by code_simp

lemma group_file_tree_production:
  "getDirectoryTree 2 \<lparr>platformOS = os, production = True\<rparr> [''./(a,b)/x.tsx''] defaultOptions =
     Some (Inr \<lparr>directoryTree =
                  DirectoryNode (Some [Some 1]) []
                    [(''(a)'', DirectoryNode None [(''(a,b)/x'', [Some 0])] []),
                     (''(b)'', DirectoryNode None [(''(a,b)/x'', [Some 0])] [])],
                nodes =
                  [RouteNode (Some (ContextModule ''./(a,b)/x.tsx'' False))
                     ''./(a,b)/x.tsx'' ''(a,b)/x'' None []
                     (Some [''./(a,b)/x.tsx'']) False False,
                   RouteNode (Some DefaultNavigator) ''./_layout.tsx'' [] None []
                     (Some [''expo-router/build/views/Navigator.js'']) True False],
                hasRoutes = True, hasLayout = False\<rparr>)"
  by code_simp

lemma group_file_keys: "extrapolateGroups 2 ''(a,b)/x.tsx'' [] = Some (Inr [''(a)/x.tsx'', ''(b)/x.tsx''])"
  by code_simp

text \<open>
  C7, as the code has it. The file \<^verbatim>\<open>(a,b)/x.tsx\<close> expands to the keys \<^verbatim>\<open>(a)/x.tsx\<close> and
  \<^verbatim>\<open>(b)/x.tsx\<close>: the replacement puts one member in the place of the list and leaves
  the parentheses. The directory tree gets exactly two leaves, the directories
  \<^verbatim>\<open>(a)\<close> and \<^verbatim>\<open>(b)\<close>; each holds, under the name \<^verbatim>\<open>(a,b)/x\<close>, the address of the one
  node of the file, whose \<open>contextKey\<close> is \<^verbatim>\<open>./(a,b)/x.tsx\<close>.
\<close>

theorem group_expansion_leaves:
  assumes "2 \<le> fuel"
  shows "extrapolateGroups fuel ''(a,b)/x.tsx'' [] = Some (Inr [''(a)/x.tsx'', ''(b)/x.tsx''])
       \<and> (\<exists>t. getDirectoryTree fuel \<lparr>platformOS = os, production = mode\<rparr>
                  [''./(a,b)/x.tsx''] defaultOptions = Some (Inr t)
              \<and> views (directoryTree t) = []
              \<and> subdirectories (directoryTree t) =
                    [(''(a)'', DirectoryNode None [(''(a,b)/x'', [Some 0])] []),
                     (''(b)'', DirectoryNode None [(''(a,b)/x'', [Some 0])] [])]
              \<and> contextKey (nodes t ! 0) = ''./(a,b)/x.tsx'')"
proof -
  have keys: "extrapolateGroups fuel ''(a,b)/x.tsx'' [] = Some (Inr [''(a)/x.tsx'', ''(b)/x.tsx''])"
    using group_file_keys assms by (rule extrapolateGroups_mono)
  have "\<exists>t. getDirectoryTree fuel \<lparr>platformOS = os, production = mode\<rparr>
                  [''./(a,b)/x.tsx''] defaultOptions = Some (Inr t)
              \<and> views (directoryTree t) = []
              \<and> subdirectories (directoryTree t) =
                    [(''(a)'', DirectoryNode None [(''(a,b)/x'', [Some 0])] []),
                     (''(b)'', DirectoryNode None [(''(a,b)/x'', [Some 0])] [])]
              \<and> contextKey (nodes t ! 0) = ''./(a,b)/x.tsx''"
  proof (cases mode)
    case True
    show ?thesis
      using getDirectoryTree_mono [OF group_file_tree_production assms, of os] True by simp
  next
    case False
    show ?thesis
      using getDirectoryTree_mono [OF group_file_tree assms, of os] False by simp
  qed
  then show ?thesis
    using keys by (rule conjI [rotated])
qed

theorem group_expansion_leaves_witness:
  "extrapolateGroups 2 ''(a,b)/x.tsx'' [] = Some (Inr [''(a)/x.tsx'', ''(b)/x.tsx''])
   \<and> (\<exists>t. getDirectoryTree 2 \<lparr>platformOS = ''ios'', production = False\<rparr>
              [''./(a,b)/x.tsx''] defaultOptions = Some (Inr t)
          \<and> contextKey (nodes t ! 0) = ''./(a,b)/x.tsx'')"
proof -
  have "(2::nat) \<le> 2"
    by simp
  from group_expansion_leaves [OF this, of "''ios''" False] show ?thesis
    by blast
qed

text \<open>
  C7 as stated fails: the two leaves are not the directories \<^verbatim>\<open>a\<close> and \<^verbatim>\<open>b\<close>; the
  tree has no such directory.
\<close>

theorem group_expansion_counterexample:
  "\<exists>t. getDirectoryTree 2 \<lparr>platformOS = ''ios'', production = False\<rparr>
          [''./(a,b)/x.tsx''] defaultOptions = Some (Inr t)
      \<and> map fst (subdirectories (directoryTree t)) = [''(a)'', ''(b)'']
      \<and> map_of (subdirectories (directoryTree t)) ''a'' = None
      \<and> map_of (subdirectories (directoryTree t)) ''b'' = None"
  using group_file_tree [of "''ios''"] by simp

section \<open>Group lists whose members differ by white space only\<close>

lemma spaced_group_single_path:
  "extrapolateGroups 2 ''(a, a)/x.tsx'' [] = Some (Inr [''(a)/x.tsx''])"
  by code_simp

lemma spaced_group_any_depth:
  "2 \<le> fuel \<Longrightarrow> extrapolateGroups fuel ''(a, a)/x.tsx'' [] = Some (Inr [''(a)/x.tsx''])"
  using spaced_group_single_path by (rule extrapolateGroups_mono)

lemma matched_text_group:
  "matchGroupName ''($&, $&)/x.tsx'' = Some ''$&, $&''"
  "split ''$&, $&'' CHR '','' = [''$&'', '' $&'']"
  "replace ''($&, $&)/x.tsx'' ''$&, $&'' (trim ''$&'') = ''($&, $&)/x.tsx''"
  by code_simp+

text \<open>
  C10 on the group list \<^verbatim>\<open>($&, $&)\<close>. Its two members differ as written and are equal
  after trimming, so no duplicate is reported; the member is put in the place of the
  list with \<^verbatim>\<open>replace\<close>, where \<^verbatim>\<open>$&\<close> stands for the matched text: the key is what it
  was, and the recursion has no end. No depth of recursion gives a result.
\<close>

theorem matched_text_group_no_result:
  "extrapolateGroups fuel ''($&, $&)/x.tsx'' keys = None"
proof (induction fuel)
  case 0
  show ?case by simp
next
  case (Suc n)
  have "extrapolateEach n ''($&, $&)/x.tsx'' ''$&, $&'' [''$&'', '' $&''] keys = None"
    using Suc by (simp add: matched_text_group(3))
  then show ?case
    by (simp add: matched_text_group(1,2))
qed

section \<open>The store during hoisting\<close>

lemma grows_refl: "grows h h"
  by (simp add: grows_def)

lemma grows_trans: "grows h1 h2 \<Longrightarrow> grows h2 h3 \<Longrightarrow> grows h1 h3"
  unfolding grows_def by (metis subset_trans)

lemma pushChild_length: "length (pushChild p c h) = length h"
  by (simp add: pushChild_def)

lemma pushChild_other: "i \<noteq> p \<Longrightarrow> pushChild p c h ! i = h ! i"
  by (simp add: pushChild_def)

lemma pushChild_same:
  "p < length h \<Longrightarrow>
     pushChild p c h ! p =
       RouteNode (loadRoute (h ! p)) (contextKey (h ! p)) (route (h ! p)) (dynamic (h ! p))
         (children (h ! p) @ [c]) (entryPoints (h ! p)) (generated (h ! p)) (internal (h ! p))"
  by (cases "h ! p") (simp add: pushChild_def)

lemma pushChild_beyond: "\<not> p < length h \<Longrightarrow> pushChild p c h = h"
  by (simp add: pushChild_def list_update_beyond)

lemma pushChild_grows: "grows h (pushChild p c h)"
proof -
  have "contextKey (pushChild p c h ! i) = contextKey (h ! i)
        \<and> generated (pushChild p c h ! i) = generated (h ! i)
        \<and> set (children (h ! i)) \<subseteq> set (children (pushChild p c h ! i))
        \<and> (route (h ! i) = [] \<longrightarrow> route (pushChild p c h ! i) = [])" for i
  proof (cases "i = p \<and> p < length h")
    case True
    then show ?thesis by (auto simp: pushChild_same)
  next
    case False
    then have "pushChild p c h ! i = h ! i"
      by (auto simp: pushChild_other pushChild_beyond)
    then show ?thesis by simp
  qed
  then show ?thesis
    by (simp add: grows_def pushChild_length)
qed

lemma pushChild_child: "p < length h \<Longrightarrow> c \<in> set (children (pushChild p c h ! p))"
  by (simp add: pushChild_same)


lemma replace_Nil: "replace [] pat [] = []"
  by (simp add: replace_def)

lemma getMostSpecific_in_slots: "getMostSpecific h slots = Inr (Some l) \<Longrightarrow> Some l \<in> set slots"
proof -
  assume a: "getMostSpecific h slots = Inr (Some l)"
  then have ne: "slots \<noteq> []"
    by (auto simp: getMostSpecific_def Let_def at_def)
  with a have "slots ! (length slots - 1) = Some l"
    by (auto simp: getMostSpecific_def Let_def at_def split: if_splits option.splits)
  moreover have "slots ! (length slots - 1) \<in> set slots"
    using ne by simp
  ultimately show ?thesis by simp
qed

lemma hoistLayout_result:
  assumes "hoistLayout slots options parent eps pathToRemove h = Inr (l, eps', pathToRemove', h')"
  shows "Some l \<in> set slots"
    and "grows h h'"
    and "parent = None \<Longrightarrow> i \<noteq> l \<Longrightarrow> h' ! i = h ! i"
    and "pathToRemove' = (if route (h ! l) \<noteq> [] then route (h ! l) @ ''/'' else [])"
proof -
  from assms have ms: "getMostSpecific h slots = Inr (Some l)"
    by (auto simp: hoistLayout_def Let_def split: sum.splits option.splits RouteNode.splits)
  then show "Some l \<in> set slots"
    by (rule getMostSpecific_in_slots)
  define h1 where "h1 = (case parent of None \<Rightarrow> h | Some p \<Rightarrow> pushChild p (Ref l) h)"
  have g1: "grows h h1"
    by (cases parent) (simp_all add: h1_def grows_refl pushChild_grows)
  obtain lr ck rt dy ch ep ge it where node: "h1 ! l = RouteNode lr ck rt dy ch ep ge it"
    by (cases "h1 ! l")
  have h': "h' = h1[l := RouteNode (if unstable_stripLoadRoute options then None else lr)
                     ck (replace rt pathToRemove []) (generateDynamic (replace rt pathToRemove []))
                     ch None ge it]"
    and p': "pathToRemove' = (if rt \<noteq> [] then rt @ ''/'' else [])"
    using assms ms node by (simp_all add: hoistLayout_def Let_def h1_def)
  have "contextKey (h' ! i) = contextKey (h1 ! i)
        \<and> generated (h' ! i) = generated (h1 ! i)
        \<and> set (children (h1 ! i)) \<subseteq> set (children (h' ! i))
        \<and> (route (h1 ! i) = [] \<longrightarrow> route (h' ! i) = [])" for i
  proof (cases "i = l \<and> l < length h1")
    case True
    then show ?thesis using node by (simp add: h' replace_Nil)
  next
    case False
    then have "h' ! i = h1 ! i"
      by (auto simp: h' list_update_beyond)
    then show ?thesis by simp
  qed
  then have "grows h1 h'"
    by (simp add: grows_def h')
  with g1 show "grows h h'"
    by (rule grows_trans)
  show "h' ! i = h ! i" if "parent = None" "i \<noteq> l"
    using that by (simp add: h' h1_def)
  have "route (h1 ! l) = route (h ! l)"
  proof (cases parent)
    case None
    then show ?thesis by (simp add: h1_def)
  next
    case (Some p)
    show ?thesis
    proof (cases "l = p \<and> p < length h")
      case True
      then show ?thesis using Some by (simp add: h1_def pushChild_same)
    next
      case False
      then have "pushChild p (Ref l) h ! l = h ! l"
        by (auto simp: pushChild_other pushChild_beyond)
      then show ?thesis using Some by (simp add: h1_def)
    qed
  qed
  then show "pathToRemove' = (if route (h ! l) \<noteq> [] then route (h ! l) @ ''/'' else [])"
    using p' node by simp
qed

lemma hoistViews_grows:
  "hoistViews vs options p eps pathToRemove h = Inr h' \<Longrightarrow> grows h h'"
proof (induction vs arbitrary: h)
  case Nil
  then show ?case by (simp add: grows_refl)
next
  case (Cons a vs)
  obtain k routes where a: "a = (k, routes)"
    by (cases a)
  from Cons.prems a obtain v where
    v: "getMostSpecific h routes = Inr (Some v)" and
    rest: "hoistViews vs options p eps pathToRemove
             (pushChild p (Obj (hoistView options eps pathToRemove (h ! v))) h) = Inr h'"
    by (auto split: sum.splits option.splits)
  from Cons.IH [OF rest] pushChild_grows show ?case
    by (rule grows_trans [rotated])
qed

lemma hoistViews_children:
  "hoistViews vs options p eps pathToRemove h = Inr h' \<Longrightarrow> p < length h
     \<Longrightarrow> (k, slots) \<in> set vs
     \<Longrightarrow> \<exists>v. Some v \<in> set slots
           \<and> (v \<noteq> p \<longrightarrow> Obj (hoistView options eps pathToRemove (h ! v)) \<in> set (children (h' ! p)))"
proof (induction vs arbitrary: h)
  case Nil
  then show ?case by simp
next
  case (Cons a vs)
  obtain k0 routes where a: "a = (k0, routes)"
    by (cases a)
  let ?h1 = "\<lambda>v. pushChild p (Obj (hoistView options eps pathToRemove (h ! v))) h"
  from Cons.prems(1) a obtain v where
    v: "getMostSpecific h routes = Inr (Some v)" and
    rest: "hoistViews vs options p eps pathToRemove (?h1 v) = Inr h'"
    by (auto split: sum.splits option.splits)
  show ?case
  proof (cases "(k, slots) = (k0, routes)")
    case True
    have "Obj (hoistView options eps pathToRemove (h ! v)) \<in> set (children (?h1 v ! p))"
      using Cons.prems(2) by (rule pushChild_child)
    moreover have "set (children (?h1 v ! p)) \<subseteq> set (children (h' ! p))"
      using hoistViews_grows [OF rest] by (simp add: grows_def)
    moreover have "Some v \<in> set slots"
      using getMostSpecific_in_slots [OF v] True by simp
    ultimately show ?thesis by blast
  next
    case False
    then have "(k, slots) \<in> set vs"
      using Cons.prems(3) a by auto
    moreover have "p < length (?h1 v)"
      using Cons.prems(2) by (simp add: pushChild_length)
    ultimately obtain w where w: "Some w \<in> set slots"
      "w \<noteq> p \<longrightarrow> Obj (hoistView options eps pathToRemove (?h1 v ! w)) \<in> set (children (h' ! p))"
      using Cons.IH [OF rest] by blast
    then show ?thesis
      by (auto simp: pushChild_other)
  qed
qed

lemma hoist_grows:
  "hoistRoutesToNearestLayout d options parent eps pathToRemove h = Inr (r, h') \<Longrightarrow> grows h h'"
  "hoistSubdirectories subs options p eps pathToRemove h = Inr h' \<Longrightarrow> grows h h'"
proof (induction d options parent eps pathToRemove h and subs options p eps pathToRemove h
       arbitrary: r h' and h'
       rule: hoistRoutesToNearestLayout_hoistSubdirectories.induct)
  case (1 lay vs subs options parent eps pathToRemove h)
  show ?case
  proof (cases lay)
    case None
    show ?thesis
    proof (cases parent)
      case pn: None
      then show ?thesis using "1.prems" None by (simp add: grows_refl)
    next
      case (Some p)
      from "1.prems" None Some obtain h2 where
        v: "hoistViews vs options p eps pathToRemove h = Inr h2" and
        s: "hoistSubdirectories subs options p eps pathToRemove h2 = Inr h'"
        by (auto split: sum.splits)
      have "grows h2 h'"
        using "1.IH" [of "(Some p, eps, pathToRemove, h)" "Some p" "(eps, pathToRemove, h)" p eps
            "(pathToRemove, h)" pathToRemove h h2 h'] None Some v s
        by simp
      with hoistViews_grows [OF v] show ?thesis
        by (rule grows_trans)
    qed
  next
    case (Some slots)
    from "1.prems" Some obtain l eps1 ptr1 h1 h2 where
      l: "hoistLayout slots options parent eps pathToRemove h = Inr (l, eps1, ptr1, h1)" and
      v: "hoistViews vs options l eps1 ptr1 h1 = Inr h2" and
      s: "hoistSubdirectories subs options l eps1 ptr1 h2 = Inr h'"
      by (auto split: sum.splits)
    have "grows h2 h'"
      using "1.IH" [of "(Some l, eps1, ptr1, h1)" "Some l" "(eps1, ptr1, h1)" l eps1
          "(ptr1, h1)" ptr1 h1 h2 h'] Some l v s
      by simp
    with hoistViews_grows [OF v] have "grows h1 h'"
      by (rule grows_trans)
    with hoistLayout_result(2) [OF l] show ?thesis
      by (rule grows_trans)
  qed
next
  case (2 options p eps pathToRemove h)
  then show ?case by (simp add: grows_refl)
next
  case (3 k c subs options p eps pathToRemove h)
  from "3.prems" obtain r h1 where
    c: "hoistRoutesToNearestLayout c options (Some p) eps pathToRemove h = Inr (r, h1)" and
    s: "hoistSubdirectories subs options p eps pathToRemove h1 = Inr h'"
    by (auto split: sum.splits)
  have "grows h h1"
    using "3.IH"(1) [OF c] .
  moreover have "grows h1 h'"
    using "3.IH"(2) [of "(r, h1)" r h1 h'] c s by simp
  ultimately show ?case
    by (rule grows_trans)
qed

section \<open>The root directory during the scan\<close>

lemma walk_layout_views: "layout (walk ps d) = layout d \<and> views (walk ps d) = views d"
  by (cases ps) (auto split: option.splits)

lemma fold_walk_layout_views:
  "layout (fold walk leaves d) = layout d \<and> views (fold walk leaves d) = views d"
  by (induction leaves arbitrary: d) (simp_all add: walk_layout_views)

lemma modifyAt_below:
  "modifyAt (p # ps) f d = Inr d' \<Longrightarrow> layout d' = layout d \<and> views d' = views d"
  by (auto split: option.splits sum.splits)

lemma forLeaves_slotsOk:
  assumes "forLeaves leaves f d = Inr d'"
    and "\<And>leaf leaf'. slotsOk (layout leaf) (views leaf) h \<Longrightarrow> f leaf = Inr leaf'
           \<Longrightarrow> slotsOk (layout leaf') (views leaf') h"
    and "slotsOk (layout d) (views d) h"
  shows "slotsOk (layout d') (views d') h"
  using assms(1,3)
proof (induction leaves arbitrary: d)
  case Nil
  then show ?case by simp
next
  case (Cons leaf leaves)
  from Cons.prems(1) obtain d1 where
    m: "modifyAt leaf f d = Inr d1" and rest: "forLeaves leaves f d1 = Inr d'"
    by (auto split: sum.splits)
  have "slotsOk (layout d1) (views d1) h"
  proof (cases leaf)
    case Nil
    then show ?thesis using m assms(2) Cons.prems(2) by simp
  next
    case (Cons p ps)
    then show ?thesis using modifyAt_below [of p ps f d d1] m Cons.prems(2) by simp
  qed
  with rest show ?case
    by (rule Cons.IH)
qed

lemma set_assign: "set (assign xs i v) \<subseteq> set xs \<union> {None, Some v}"
proof (cases "i < length xs")
  case True
  then show ?thesis
    using set_update_subset_insert [of xs i "Some v"] by (auto simp: assign_def)
next
  case False
  then show ?thesis by (auto simp: assign_def)
qed

lemma set_mapSet: "(k', v') \<in> set (mapSet k v m) \<Longrightarrow> (k', v') = (k, v) \<or> (k', v') \<in> set m"
  by (induction m) (auto split: if_splits)

lemma placeLayout_slotsOk:
  assumes "placeLayout h filePath meta node leaf = Inr leaf'"
    and "slotsOk (layout leaf) (views leaf) h"
    and "node < length h" and "isLayoutKey (contextKey (h ! node))"
  shows "slotsOk (layout leaf') (views leaf') h"
proof -
  define slots where "slots = (case layout leaf of None \<Rightarrow> [] | Some l \<Rightarrow> l)"
  from assms(1) have leaf': "layout leaf' = Some (assign slots (nat (specificity meta)) node)"
    "views leaf' = views leaf"
    by (auto simp: placeLayout_def Let_def slots_def split: option.splits)
  have old: "Some r \<in> set slots \<Longrightarrow> r < length h \<and> isLayoutKey (contextKey (h ! r))" for r
    using assms(2) by (cases "layout leaf") (auto simp: slots_def slotsOk_def)
  have "r < length h \<and> isLayoutKey (contextKey (h ! r))"
    if "Some r \<in> set (assign slots (nat (specificity meta)) node)" for r
    using that set_assign [of slots "nat (specificity meta)" node] old assms(3,4) by auto
  then show ?thesis
    using assms(2) by (simp add: slotsOk_def leaf')
qed

lemma placeView_slotsOk:
  assumes "placeView env options h filePath meta node leaf = Inr leaf'"
    and "slotsOk (layout leaf) (views leaf) h"
    and "node < length h" and "\<not> isLayoutKey (contextKey (h ! node))"
    and "route (h ! node) = name meta"
  shows "slotsOk (layout leaf') (views leaf') h"
proof -
  define ns where "ns = (case map_of (views leaf) (name meta) of None \<Rightarrow> [] | Some ns \<Rightarrow> ns)"
  from assms(1) have leaf': "layout leaf' = layout leaf"
    "views leaf' = mapSet (name meta) (assign ns (nat (specificity meta)) node) (views leaf)"
    by (auto simp: placeView_def Let_def ns_def split: option.splits if_splits)
  have old: "Some r \<in> set ns
      \<Longrightarrow> r < length h \<and> \<not> isLayoutKey (contextKey (h ! r)) \<and> route (h ! r) = name meta" for r
  proof (cases "map_of (views leaf) (name meta)")
    case None
    assume "Some r \<in> set ns"
    then show ?thesis using None by (simp add: ns_def)
  next
    case (Some a)
    assume "Some r \<in> set ns"
    moreover have "(name meta, ns) \<in> set (views leaf)"
      using Some by (simp add: ns_def map_of_SomeD)
    ultimately show ?thesis
      using assms(2) unfolding slotsOk_def by blast
  qed
  have "r < length h \<and> \<not> isLayoutKey (contextKey (h ! r)) \<and> route (h ! r) = k"
    if "(k, slots) \<in> set (views leaf')" "Some r \<in> set slots" for k slots r
  proof -
    from that(1) consider "(k, slots) = (name meta, assign ns (nat (specificity meta)) node)"
      | "(k, slots) \<in> set (views leaf)"
      using set_mapSet unfolding leaf' by fastforce
    then show ?thesis
    proof cases
      case 1
      then show ?thesis
        using that(2) set_assign [of ns "nat (specificity meta)" node] old assms(3,4,5) by auto
    next
      case 2
      then show ?thesis
        using that(2) assms(2) unfolding slotsOk_def by blast
    qed
  qed
  then show ?thesis
    using assms(2) unfolding slotsOk_def leaf' by blast
qed

lemma slotsOk_append: "slotsOk lay vs h \<Longrightarrow> slotsOk lay vs (h @ [n])"
  unfolding slotsOk_def by (auto simp: nth_append) (metis less_SucI)+

lemma getFileMeta_isLayout:
  "getFileMeta env filePath options = Inr meta \<Longrightarrow> isLayout meta = isLayoutKey filePath"
  by (auto simp: getFileMeta_def isLayoutKey_def Let_def split: if_splits)

lemma scanFile_slotsOk:
  assumes "scanFile fuel env options filePath st = Some (Inr st')"
    and "slotsOk (layout (directoryTree st)) (views (directoryTree st)) (nodes st)"
  shows "slotsOk (layout (directoryTree st')) (views (directoryTree st')) (nodes st')"
proof (cases "list_ex (\<lambda>regex. regex filePath) (getIgnoreList options)")
  case True
  then show ?thesis using assms by (simp add: scanFile_def)
next
  case False
  with assms(1) obtain meta where meta: "getFileMeta env filePath options = Inr meta"
    by (auto simp: scanFile_def split: sum.splits)
  show ?thesis
  proof (cases "specificity meta < 0")
    case True
    then show ?thesis using assms False meta by (simp add: scanFile_def)
  next
    case nonneg: False
    with assms(1) False meta obtain keys where
      keys: "extrapolateGroups fuel (key meta) [] = Some (Inr keys)"
      by (auto simp: scanFile_def split: option.splits sum.splits)
    define leaves where "leaves = map (\<lambda>k. subdirectoryParts k meta) keys"
    define walked where "walked = fold walk leaves (directoryTree st)"
    define node where "node = length (nodes st)"
    define h where "h = nodes st @
        [RouteNode (Some (ContextModule filePath (ignoreRequireErrors options)))
           filePath (name meta) None [] (Some [filePath]) False False]"
    have walked: "slotsOk (layout walked) (views walked) h"
      using assms(2) by (simp add: walked_def h_def fold_walk_layout_views slotsOk_append)
    have node: "node < length h" "contextKey (h ! node) = filePath" "route (h ! node) = name meta"
      by (simp_all add: node_def h_def)
    have st': "nodes st' = h"
      "(isLayout meta \<and> forLeaves leaves (placeLayout h filePath meta node) walked
          = Inr (directoryTree st'))
       \<or> (\<not> isLayout meta \<and> isApi meta \<and> directoryTree st' = walked)
       \<or> (\<not> isLayout meta \<and> \<not> isApi meta
          \<and> forLeaves leaves (placeView env options h filePath meta node) walked
              = Inr (directoryTree st'))"
      using assms(1) False meta nonneg keys
      by (auto simp: scanFile_def Let_def leaves_def walked_def node_def h_def
            split: sum.splits if_splits)
    from st'(2) have "slotsOk (layout (directoryTree st')) (views (directoryTree st')) h"
    proof (elim disjE conjE)
      assume lay: "isLayout meta"
        and f: "forLeaves leaves (placeLayout h filePath meta node) walked = Inr (directoryTree st')"
      have "isLayoutKey (contextKey (h ! node))"
        using lay getFileMeta_isLayout [OF meta] node(2) by simp
      then show ?thesis
        using forLeaves_slotsOk [OF f _ walked] placeLayout_slotsOk node(1) by blast
    next
      assume "directoryTree st' = walked"
      then show ?thesis using walked by simp
    next
      assume lay: "\<not> isLayout meta"
        and f: "forLeaves leaves (placeView env options h filePath meta node) walked
                  = Inr (directoryTree st')"
      have "\<not> isLayoutKey (contextKey (h ! node))"
        using lay getFileMeta_isLayout [OF meta] node(2) by simp
      then show ?thesis
        using forLeaves_slotsOk [OF f _ walked] placeView_slotsOk node(1,3) by blast
    qed
    then show ?thesis
      by (simp add: st'(1))
  qed
qed

lemma scanFiles_slotsOk:
  "scanFiles fuel env options filePaths st = Some (Inr st')
     \<Longrightarrow> slotsOk (layout (directoryTree st)) (views (directoryTree st)) (nodes st)
     \<Longrightarrow> slotsOk (layout (directoryTree st')) (views (directoryTree st')) (nodes st')"
proof (induction filePaths arbitrary: st)
  case Nil
  then show ?case by simp
next
  case (Cons filePath filePaths)
  from Cons.prems(1) obtain st1 where
    one: "scanFile fuel env options filePath st = Some (Inr st1)" and
    rest: "scanFiles fuel env options filePaths st1 = Some (Inr st')"
    by (auto split: option.splits sum.splits)
  from rest scanFile_slotsOk [OF one Cons.prems(2)] show ?case
    by (rule Cons.IH)
qed

lemma isLayoutKey_defaultLayout: "isLayoutKey (contextKey defaultLayout)"
  by code_simp

lemma not_isLayoutKey_generated:
  "\<not> isLayoutKey (contextKey sitemapRoute)" "\<not> isLayoutKey (contextKey notFoundRoute)"
  by code_simp+

lemma getDirectoryTree_slotsOk:
  assumes "getDirectoryTree fuel env contextModule options = Some (Inr t)"
  shows "slotsOk (layout (directoryTree t)) (views (directoryTree t)) (nodes t)"
    and "layout (directoryTree t) \<noteq> None"
proof -
  from assms obtain st where
    scan: "scanFiles fuel env options contextModule
             \<lparr>directoryTree = emptyDirectory, nodes = [], hasRoutes = False, hasLayout = False\<rparr>
           = Some (Inr st)"
    by (auto simp: getDirectoryTree_def split: option.splits sum.splits)
  have ok: "slotsOk (layout (directoryTree st)) (views (directoryTree st)) (nodes st)"
    using scanFiles_slotsOk [OF scan] by (simp add: slotsOk_def emptyDirectory_def)
  show "slotsOk (layout (directoryTree t)) (views (directoryTree t)) (nodes t)"
  proof (cases "layout (directoryTree st) = None")
    case True
    then have t: "layout (directoryTree t) = Some [Some (length (nodes st))]"
      "views (directoryTree t) = views (directoryTree st)"
      "nodes t = nodes st @ [defaultLayout]"
      using assms scan by (auto simp: getDirectoryTree_def)
    have "slotsOk None (views (directoryTree st)) (nodes st @ [defaultLayout])"
      using ok True by (simp add: slotsOk_append)
    then show ?thesis
      unfolding t slotsOk_def using isLayoutKey_defaultLayout by auto
  next
    case False
    then have "t = st"
      using assms scan by (auto simp: getDirectoryTree_def)
    then show ?thesis using ok by simp
  qed
  show "layout (directoryTree t) \<noteq> None"
    using assms scan by (auto simp: getDirectoryTree_def split: if_splits)
qed

section \<open>The generated routes and the rewriting of routes\<close>

lemma map_of_mapSet_other: "k' \<noteq> k \<Longrightarrow> map_of (mapSet k v m) k' = map_of m k'"
  by (induction m) auto

lemma appendSitemapRoute_result:
  assumes "appendSitemapRoute (d, h) = (d', h')" and "slotsOk (layout d) (views d) h"
  shows "slotsOk (layout d') (views d') h'" and "layout d' = layout d"
    and "map_of (views d') ''_sitemap'' \<noteq> None"
    and "r < length h \<Longrightarrow> h' ! r = h ! r"
proof -
  show "slotsOk (layout d') (views d') h'"
  proof (cases "map_of (views d) ''_sitemap'' \<noteq> None")
    case True
    then show ?thesis using assms by (simp add: appendSitemapRoute_def)
  next
    case False
    then have d': "layout d' = layout d"
      "views d' = mapSet ''_sitemap'' [Some (length h)] (views d)" "h' = h @ [sitemapRoute]"
      using assms(1) by (auto simp: appendSitemapRoute_def)
    have ok: "slotsOk (layout d) (views d) (h @ [sitemapRoute])"
      using assms(2) by (rule slotsOk_append)
    have "r < length h' \<and> \<not> isLayoutKey (contextKey (h' ! r)) \<and> route (h' ! r) = k"
      if "(k, slots) \<in> set (views d')" "Some r \<in> set slots" for k slots r
    proof -
      from that(1) consider "(k, slots) = (''_sitemap'', [Some (length h)])"
        | "(k, slots) \<in> set (views d)"
        using set_mapSet unfolding d' by fastforce
      then show ?thesis
      proof cases
        case 1
        then have "r = length h" "k = ''_sitemap''"
          using that(2) by auto
        then show ?thesis
          using not_isLayoutKey_generated(1) by (simp add: d' sitemapRoute_def)
      next
        case 2
        then show ?thesis
          using that(2) ok unfolding slotsOk_def d' by blast
      qed
    qed
    then show ?thesis
      using ok unfolding slotsOk_def d' by blast
  qed
  show "layout d' = layout d"
    using assms(1) by (auto simp: appendSitemapRoute_def split: if_splits)
  show "map_of (views d') ''_sitemap'' \<noteq> None"
    using assms(1) by (auto simp: appendSitemapRoute_def map_of_mapSet split: if_splits)
  show "h' ! r = h ! r" if "r < length h"
    using assms(1) that by (auto simp: appendSitemapRoute_def nth_append split: if_splits)
qed

lemma appendNotFoundRoute_result:
  assumes "appendNotFoundRoute (d, h) = (d', h')" and "slotsOk (layout d) (views d) h"
  shows "slotsOk (layout d') (views d') h'" and "layout d' = layout d"
    and "map_of (views d') ''+not-found'' \<noteq> None"
    and "map_of (views d) ''_sitemap'' \<noteq> None \<Longrightarrow> map_of (views d') ''_sitemap'' \<noteq> None"
    and "r < length h \<Longrightarrow> h' ! r = h ! r"
proof -
  show "slotsOk (layout d') (views d') h'"
  proof (cases "map_of (views d) ''+not-found'' \<noteq> None")
    case True
    then show ?thesis using assms by (simp add: appendNotFoundRoute_def)
  next
    case False
    then have d': "layout d' = layout d"
      "views d' = mapSet ''+not-found'' [Some (length h)] (views d)" "h' = h @ [notFoundRoute]"
      using assms(1) by (auto simp: appendNotFoundRoute_def)
    have ok: "slotsOk (layout d) (views d) (h @ [notFoundRoute])"
      using assms(2) by (rule slotsOk_append)
    have "r < length h' \<and> \<not> isLayoutKey (contextKey (h' ! r)) \<and> route (h' ! r) = k"
      if "(k, slots) \<in> set (views d')" "Some r \<in> set slots" for k slots r
    proof -
      from that(1) consider "(k, slots) = (''+not-found'', [Some (length h)])"
        | "(k, slots) \<in> set (views d)"
        using set_mapSet unfolding d' by fastforce
      then show ?thesis
      proof cases
        case 1
        then have "r = length h" "k = ''+not-found''"
          using that(2) by auto
        then show ?thesis
          using not_isLayoutKey_generated(2) by (simp add: d' notFoundRoute_def)
      next
        case 2
        then show ?thesis
          using that(2) ok unfolding slotsOk_def d' by blast
      qed
    qed
    then show ?thesis
      using ok unfolding slotsOk_def d' by blast
  qed
  show "layout d' = layout d"
    using assms(1) by (auto simp: appendNotFoundRoute_def split: if_splits)
  show "map_of (views d') ''+not-found'' \<noteq> None"
    using assms(1) by (auto simp: appendNotFoundRoute_def map_of_mapSet split: if_splits)
  show "map_of (views d') ''_sitemap'' \<noteq> None" if "map_of (views d) ''_sitemap'' \<noteq> None"
    using assms(1) that
    by (auto simp: appendNotFoundRoute_def map_of_mapSet_other split: if_splits)
  show "h' ! r = h ! r" if "r < length h"
    using assms(1) that by (auto simp: appendNotFoundRoute_def nth_append split: if_splits)
qed

lemma splitFirst_Some: "splitFirst pat s = Some (b, a) \<Longrightarrow> s = b @ pat @ a"
proof (induction s arbitrary: b)
  case Nil
  then show ?case by (simp split: if_splits)
next
  case (Cons c cs)
  show ?case
  proof (cases "startsWith (c # cs) pat")
    case True
    then have "b = []" "a = drop (length pat) (c # cs)" "take (length pat) (c # cs) = pat"
      using Cons.prems by (simp_all add: startsWith_def)
    then show ?thesis
      using append_take_drop_id [of "length pat" "c # cs"] by simp
  next
    case False
    then obtain b' where "splitFirst pat cs = Some (b', a)" "b = c # b'"
      using Cons.prems by auto
    then show ?thesis
      using Cons.IH by simp
  qed
qed

lemma replace_absent_char: "x \<in> set pat \<Longrightarrow> x \<notin> set s \<Longrightarrow> replace s pat rep = s"
proof (cases "splitFirst pat s")
  case None
  then show ?thesis by (simp add: replace_def)
next
  case (Some ba)
  assume "x \<in> set pat" "x \<notin> set s"
  moreover obtain b a where "ba = (b, a)"
    by (cases ba)
  ultimately show ?thesis
    using splitFirst_Some [of pat s b a] Some by auto
qed

lemma replace_empty_pattern: "replace s [] [] = s"
  by (cases s) (simp_all add: replace_def startsWith_def)

lemma replace_pathToRemove:
  "CHR ''/'' \<notin> set s \<Longrightarrow> replace s (if rt \<noteq> [] then rt @ ''/'' else []) [] = s"
  by (simp add: replace_empty_pattern replace_absent_char [of "CHR ''/''"])

lemma hoistView_fields:
  "route (hoistView options eps pathToRemove v) = replace (route v) pathToRemove []"
  "dynamic (hoistView options eps pathToRemove v) =
     generateDynamic (replace (route v) pathToRemove [])"
  "contextKey (hoistView options eps pathToRemove v) = contextKey v"
  by (cases v; simp add: hoistView_def Let_def)+

lemma hoist_root:
  assumes "hoistRoutesToNearestLayout d options None eps pathToRemove h = Inr (r, h')"
    and "slotsOk (layout d) (views d) h" and "layout d = Some slots"
  shows "\<exists>root. r = Some root \<and> Some root \<in> set slots"
    and "grows h h'"
    and "(k, s) \<in> set (views d) \<Longrightarrow>
           \<exists>root v n. r = Some root \<and> Some v \<in> set s \<and> Obj n \<in> set (children (h' ! root))
             \<and> route n = replace k (if route (h ! root) \<noteq> [] then route (h ! root) @ ''/'' else []) []
             \<and> dynamic n = generateDynamic (route n)
             \<and> contextKey n = contextKey (h ! v)"
proof -
  obtain lay vs subs where d: "d = DirectoryNode lay vs subs"
    by (cases d)
  with assms(3) have lay: "lay = Some slots"
    by simp
  from assms(1) d lay obtain l eps1 ptr1 h1 h2 where
    l: "hoistLayout slots options None eps pathToRemove h = Inr (l, eps1, ptr1, h1)" and
    v: "hoistViews vs options l eps1 ptr1 h1 = Inr h2" and
    s: "hoistSubdirectories subs options l eps1 ptr1 h2 = Inr h'" and
    r: "r = Some l"
    by (auto split: sum.splits)
  note res = hoistLayout_result [OF l]
  show "\<exists>root. r = Some root \<and> Some root \<in> set slots"
    using r res(1) by simp
  show "grows h h'"
    using assms(1) by (rule hoist_grows(1))
  show "\<exists>root v n. r = Some root \<and> Some v \<in> set s \<and> Obj n \<in> set (children (h' ! root))
             \<and> route n = replace k (if route (h ! root) \<noteq> [] then route (h ! root) @ ''/'' else []) []
             \<and> dynamic n = generateDynamic (route n)
             \<and> contextKey n = contextKey (h ! v)"
    if ks: "(k, s) \<in> set (views d)"
  proof -
    have l_ok: "l < length h" "isLayoutKey (contextKey (h ! l))"
      using assms(2) lay d res(1) unfolding slotsOk_def by auto
    have "l < length h1"
      using l_ok(1) res(2) by (simp add: grows_def)
    moreover have "(k, s) \<in> set vs"
      using ks d by simp
    ultimately obtain w where w: "Some w \<in> set s"
      "w \<noteq> l \<longrightarrow> Obj (hoistView options eps1 ptr1 (h1 ! w)) \<in> set (children (h2 ! l))"
      using hoistViews_children [OF v] by blast
    have w_ok: "\<not> isLayoutKey (contextKey (h ! w))" "route (h ! w) = k"
      using assms(2) ks w(1) unfolding slotsOk_def by blast+
    then have neq: "w \<noteq> l"
      using l_ok(2) by auto
    then have same: "h1 ! w = h ! w"
      using res(3) by simp
    let ?n = "hoistView options eps1 ptr1 (h ! w)"
    have "Obj ?n \<in> set (children (h2 ! l))"
      using w(2) neq same by simp
    moreover have "set (children (h2 ! l)) \<subseteq> set (children (h' ! l))"
      using hoist_grows(2) [OF s] by (simp add: grows_def)
    ultimately have "Obj ?n \<in> set (children (h' ! l))"
      by blast
    moreover have "route ?n = replace k (if route (h ! l) \<noteq> [] then route (h ! l) @ ''/'' else []) []"
      using w_ok(2) res(4) by (simp add: hoistView_fields)
    moreover have "dynamic ?n = generateDynamic (route ?n)"
      by (simp add: hoistView_fields)
    moreover have "contextKey ?n = contextKey (h ! w)"
      by (simp add: hoistView_fields)
    ultimately show ?thesis
      using r w(1) by blast
  qed
qed

section \<open>Properties of getRoutes\<close>

lemma getRoutes_Inr:
  assumes "getRoutes fuel env contextModule options = Some (Inr res)"
  obtains t where "getDirectoryTree fuel env contextModule options = Some (Inr t)"
      "\<not> hasLayout t" "\<not> hasRoutes t" "res = None"
  | t d1 h1 d2 h2 r h where "getDirectoryTree fuel env contextModule options = Some (Inr t)"
      "hasLayout t \<or> hasRoutes t"
      "(d1, h1) = (if hasRoutes t \<or> unstable_alwaysIncludeSitemap options
                   then appendSitemapRoute (directoryTree t, nodes t)
                   else (directoryTree t, nodes t))"
      "appendNotFoundRoute (d1, h1) = (d2, h2)"
      "hoistRoutesToNearestLayout d2 options None [] [] h2 = Inr (r, h)"
      "res = map_option (\<lambda>root. (root, h)) r"
proof -
  from assms obtain t where t: "getDirectoryTree fuel env contextModule options = Some (Inr t)"
    by (auto simp: getRoutes_def split: option.splits sum.splits)
  show ?thesis
  proof (cases "\<not> hasLayout t \<and> \<not> hasRoutes t")
    case True
    then have "res = None"
      using assms t by (simp add: getRoutes_def)
    then show ?thesis
      using that(1) t True by blast
  next
    case False
    obtain d1 h1 where ds1: "(d1, h1) = (if hasRoutes t \<or> unstable_alwaysIncludeSitemap options
                   then appendSitemapRoute (directoryTree t, nodes t)
                   else (directoryTree t, nodes t))"
      by (metis surj_pair)
    obtain d2 h2 where ds2: "appendNotFoundRoute (d1, h1) = (d2, h2)"
      by (metis surj_pair)
    from assms t False ds1 [symmetric] ds2 obtain r h where
      "hoistRoutesToNearestLayout d2 options None [] [] h2 = Inr (r, h)"
      "res = map_option (\<lambda>root. (root, h)) r"
      by (auto simp: getRoutes_def Let_def split: sum.splits option.splits)
    then show ?thesis
      using that(2) t False ds1 ds2 by blast
  qed
qed

lemma getRoutes_prepared:
  assumes "getDirectoryTree fuel env contextModule options = Some (Inr t)"
    and "(d1, h1) = (if hasRoutes t \<or> unstable_alwaysIncludeSitemap options
                     then appendSitemapRoute (directoryTree t, nodes t)
                     else (directoryTree t, nodes t))"
    and "appendNotFoundRoute (d1, h1) = (d2, h2)"
  shows "slotsOk (layout d2) (views d2) h2"
    and "layout d2 = layout (directoryTree t)"
    and "map_of (views d2) ''+not-found'' \<noteq> None"
    and "hasRoutes t \<Longrightarrow> map_of (views d2) ''_sitemap'' \<noteq> None"
    and "r < length (nodes t) \<Longrightarrow> h2 ! r = nodes t ! r"
proof -
  note t = getDirectoryTree_slotsOk [OF assms(1)]
  have one: "slotsOk (layout d1) (views d1) h1 \<and> layout d1 = layout (directoryTree t)
             \<and> (hasRoutes t \<longrightarrow> map_of (views d1) ''_sitemap'' \<noteq> None)
             \<and> (\<forall>r. r < length (nodes t) \<longrightarrow> h1 ! r = nodes t ! r \<and> r < length h1)"
  proof (cases "hasRoutes t \<or> unstable_alwaysIncludeSitemap options")
    case True
    then have a: "appendSitemapRoute (directoryTree t, nodes t) = (d1, h1)"
      using assms(2) by simp
    have "length (nodes t) \<le> length h1"
      using a by (auto simp: appendSitemapRoute_def split: if_splits)
    then show ?thesis
      using appendSitemapRoute_result [OF a t(1)] by auto
  next
    case False
    then show ?thesis using assms(2) t(1) by simp
  qed
  from one have ok1: "slotsOk (layout d1) (views d1) h1"
    and lay1: "layout d1 = layout (directoryTree t)"
    and site1: "hasRoutes t \<Longrightarrow> map_of (views d1) ''_sitemap'' \<noteq> None"
    and same1: "\<And>r. r < length (nodes t) \<Longrightarrow> h1 ! r = nodes t ! r \<and> r < length h1"
    by blast+
  note two = appendNotFoundRoute_result [OF assms(3) ok1]
  show "slotsOk (layout d2) (views d2) h2"
    by (rule two(1))
  show "layout d2 = layout (directoryTree t)"
    using lay1 two(2) by simp
  show "map_of (views d2) ''+not-found'' \<noteq> None"
    by (rule two(3))
  show "map_of (views d2) ''_sitemap'' \<noteq> None" if "hasRoutes t"
    using site1 [OF that] by (rule two(4))
  show "h2 ! r = nodes t ! r" if "r < length (nodes t)"
    using same1 [OF that] two(5) [of r] by simp
qed

lemma setAdd_nonempty: "setAdd k keys \<noteq> []"
  by (auto simp: setAdd_def)

lemma extrapolate_nonempty_aux:
  "(\<forall>ks. extrapolateGroups n k keys = Some (Inr ks) \<longrightarrow> ks \<noteq> [])"
  "(\<forall>ks. extrapolateEach n k mt gs keys = Some (Inr ks) \<longrightarrow> keys \<noteq> [] \<or> gs \<noteq> [] \<longrightarrow> ks \<noteq> [])"
proof (induction n k keys and n k mt gs keys rule: extrapolateGroups_extrapolateEach.induct)
  case (1 k keys)
  then show ?case by simp
next
  case (2 n k keys)
  show ?case
  proof (intro allI impI)
    fix ks
    assume res: "extrapolateGroups (Suc n) k keys = Some (Inr ks)"
    show "ks \<noteq> []"
    proof (cases "matchGroupName k")
      case None
      then show ?thesis using res setAdd_nonempty by auto
    next
      case (Some mt)
      show ?thesis
      proof (cases "mt = [] \<or> card (set (split mt CHR '','')) \<noteq> length (split mt CHR '','')
                     \<or> length (split mt CHR '','') = 1")
        case True
        then show ?thesis using res Some setAdd_nonempty by (auto simp: Let_def split: if_splits)
      next
        case False
        then have each: "extrapolateEach n k mt (split mt CHR '','') keys = Some (Inr ks)"
          using res Some by (simp add: Let_def)
        have "split mt CHR '','' \<noteq> []"
          by (cases mt) auto
        then show ?thesis
          using "2.IH" [OF Some _ refl] False each by auto
      qed
    qed
  qed
next
  case (3 n k m keys)
  then show ?case by simp
next
  case (4 n k m g gs keys)
  show ?case
  proof (intro allI impI)
    fix ks
    assume res: "extrapolateEach n k m (g # gs) keys = Some (Inr ks)"
    then obtain keys' where
      first: "extrapolateGroups n (replace k m (trim g)) keys = Some (Inr keys')" and
      rest: "extrapolateEach n k m gs keys' = Some (Inr ks)"
      by (auto split: option.splits sum.splits)
    have "keys' \<noteq> []"
      using "4.IH"(1) first by blast
    then show "ks \<noteq> []"
      using "4.IH"(2) [OF first] rest by blast
  qed
qed

lemma scanFile_hasRoutes:
  assumes "scanFile fuel env options filePath st = Some (Inr st')"
  shows "hasRoutes st \<Longrightarrow> hasRoutes st'"
    and "\<not> list_ex (\<lambda>regex. regex filePath) (getIgnoreList options)
         \<Longrightarrow> getFileMeta env filePath options = Inr meta \<Longrightarrow> 0 \<le> specificity meta
         \<Longrightarrow> \<not> isLayout meta \<Longrightarrow> \<not> isApi meta \<Longrightarrow> hasRoutes st'"
proof -
  show "hasRoutes st'" if "hasRoutes st"
    using assms that
    by (auto simp: scanFile_def Let_def split: if_splits sum.splits option.splits)
  show "hasRoutes st'"
    if "\<not> list_ex (\<lambda>regex. regex filePath) (getIgnoreList options)"
      "getFileMeta env filePath options = Inr meta" "0 \<le> specificity meta"
      "\<not> isLayout meta" "\<not> isApi meta"
  proof -
    from assms that obtain keys where
      keys: "extrapolateGroups fuel (key meta) [] = Some (Inr keys)"
      by (auto simp: scanFile_def split: option.splits sum.splits)
    then have "keys \<noteq> []"
      using extrapolate_nonempty_aux(1) by blast
    then show ?thesis
      using assms that keys
      by (auto simp: scanFile_def Let_def split: sum.splits)
  qed
qed

lemma scanFiles_hasRoutes_kept:
  "scanFiles fuel env options filePaths st = Some (Inr st') \<Longrightarrow> hasRoutes st \<Longrightarrow> hasRoutes st'"
proof (induction filePaths arbitrary: st)
  case Nil
  then show ?case by simp
next
  case (Cons a filePaths)
  from Cons.prems(1) obtain st1 where
    one: "scanFile fuel env options a st = Some (Inr st1)" and
    rest: "scanFiles fuel env options filePaths st1 = Some (Inr st')"
    by (auto split: option.splits sum.splits)
  from rest scanFile_hasRoutes(1) [OF one Cons.prems(2)] show ?case
    by (rule Cons.IH)
qed

lemma scanFiles_hasRoutes:
  assumes "\<not> list_ex (\<lambda>regex. regex filePath) (getIgnoreList options)"
    and "getFileMeta env filePath options = Inr meta" and "0 \<le> specificity meta"
    and "\<not> isLayout meta" and "\<not> isApi meta"
  shows "scanFiles fuel env options filePaths st = Some (Inr st')
         \<Longrightarrow> filePath \<in> set filePaths \<Longrightarrow> hasRoutes st'"
proof (induction filePaths arbitrary: st)
  case Nil
  then show ?case by simp
next
  case (Cons a filePaths)
  from Cons.prems(1) obtain st1 where
    one: "scanFile fuel env options a st = Some (Inr st1)" and
    rest: "scanFiles fuel env options filePaths st1 = Some (Inr st')"
    by (auto split: option.splits sum.splits)
  show ?case
  proof (cases "filePath = a")
    case True
    then have "hasRoutes st1"
      using scanFile_hasRoutes(2) [OF one] assms by blast
    with rest show ?thesis
      by (rule scanFiles_hasRoutes_kept)
  next
    case False
    then have "filePath \<in> set filePaths"
      using Cons.prems(2) by simp
    with rest show ?thesis
      by (rule Cons.IH)
  qed
qed

lemma getDirectoryTree_hasRoutes:
  assumes "getDirectoryTree fuel env contextModule options = Some (Inr t)"
    and "filePath \<in> set contextModule"
    and "\<not> list_ex (\<lambda>regex. regex filePath) (getIgnoreList options)"
    and "getFileMeta env filePath options = Inr meta" and "0 \<le> specificity meta"
    and "\<not> isLayout meta" and "\<not> isApi meta"
  shows "hasRoutes t"
proof -
  from assms(1) obtain st where
    scan: "scanFiles fuel env options contextModule
             \<lparr>directoryTree = emptyDirectory, nodes = [], hasRoutes = False, hasLayout = False\<rparr>
           = Some (Inr st)" and t: "hasRoutes t = hasRoutes st"
    by (auto simp: getDirectoryTree_def split: option.splits sum.splits if_splits)
  show ?thesis
    unfolding t using scanFiles_hasRoutes [OF assms(3-7) scan assms(2)] .
qed


lemma generateDynamic_notFound:
  "generateDynamic ''+not-found'' = Some [DynamicConvention ''+not-found'' True True]"
  by code_simp

lemma generated_routes_of_hasRoutes:
  assumes "getRoutes fuel env contextModule options = Some (Inr (Some (root, h)))"
    and "getDirectoryTree fuel env contextModule options = Some (Inr t)"
    and "hasRoutes t"
  shows "(\<exists>n. Obj n \<in> set (children (h ! root)) \<and> route n = ''_sitemap'')
       \<and> (\<exists>n. Obj n \<in> set (children (h ! root)) \<and> route n = ''+not-found''
              \<and> dynamic n = Some [DynamicConvention ''+not-found'' True True])"
  using assms(1)
proof (cases rule: getRoutes_Inr)
  case (1 t')
  then show ?thesis by simp
next
  case (2 t' d1 h1 d2 h2 r h')
  then have t': "t' = t"
    using assms(2) by simp
  note prep = getRoutes_prepared [OF 2(1) 2(3) 2(4)]
  obtain slots where slots: "layout d2 = Some slots"
    using prep(2) getDirectoryTree_slotsOk(2) [OF 2(1)] by auto
  from 2(6) have r: "r = Some root" and h': "h' = h"
    by (cases r; simp)+
  obtain s1 where "map_of (views d2) ''_sitemap'' = Some s1"
    using prep(4) assms(3) t' by auto
  then have "(''_sitemap'', s1) \<in> set (views d2)"
    by (rule map_of_SomeD)
  from hoist_root(3) [OF 2(5) prep(1) slots this] obtain n1 where
    n1: "Obj n1 \<in> set (children (h ! root))"
      "route n1 = replace ''_sitemap''
         (if route (h2 ! root) \<noteq> [] then route (h2 ! root) @ ''/'' else []) []"
    using r h' by auto
  have "route n1 = ''_sitemap''"
    unfolding n1(2) by (rule replace_pathToRemove) simp
  obtain s2 where "map_of (views d2) ''+not-found'' = Some s2"
    using prep(3) by auto
  then have "(''+not-found'', s2) \<in> set (views d2)"
    by (rule map_of_SomeD)
  from hoist_root(3) [OF 2(5) prep(1) slots this] obtain n2 where
    n2: "Obj n2 \<in> set (children (h ! root))"
      "route n2 = replace ''+not-found''
         (if route (h2 ! root) \<noteq> [] then route (h2 ! root) @ ''/'' else []) []"
      "dynamic n2 = generateDynamic (route n2)"
    using r h' by auto
  have "route n2 = ''+not-found''"
    unfolding n2(2) by (rule replace_pathToRemove) simp
  then have "dynamic n2 = Some [DynamicConvention ''+not-found'' True True]"
    using n2(3) generateDynamic_notFound by simp
  show ?thesis
    using n1(1) \<open>route n1 = ''_sitemap''\<close> n2(1) \<open>route n2 = ''+not-found''\<close>
      \<open>dynamic n2 = Some [DynamicConvention ''+not-found'' True True]\<close>
    by blast
qed


text \<open>
  C6. When the enumeration has a view file (a file that is not ignored, that
  \<open>getFileMeta\<close> accepts with a rank that is not the skip value, and that is neither
  a layout nor an API route) and \<open>getRoutes\<close> returns a tree, the root node has a
  child with the route \<^verbatim>\<open>_sitemap\<close> and a child with the route \<^verbatim>\<open>+not-found\<close>, whether
  authored or generated, and the latter carries the dynamic convention of the
  not-found marker.
\<close>

theorem generated_routes_present:
  assumes "getRoutes fuel env contextModule options = Some (Inr (Some (root, h)))"
    and "filePath \<in> set contextModule"
    and "\<not> list_ex (\<lambda>regex. regex filePath) (getIgnoreList options)"
    and "getFileMeta env filePath options = Inr meta" and "0 \<le> specificity meta"
    and "\<not> isLayout meta" and "\<not> isApi meta"
  shows "(\<exists>n. Obj n \<in> set (children (h ! root)) \<and> route n = ''_sitemap'')
       \<and> (\<exists>n. Obj n \<in> set (children (h ! root)) \<and> route n = ''+not-found''
              \<and> dynamic n = Some [DynamicConvention ''+not-found'' True True])"
proof -
  from assms(1) obtain t where
    t: "getDirectoryTree fuel env contextModule options = Some (Inr t)"
    by (auto simp: getRoutes_def split: option.splits sum.splits)
  have "hasRoutes t"
    using t assms(2-7) by (rule getDirectoryTree_hasRoutes)
  with assms(1) t show ?thesis
    by (rule generated_routes_of_hasRoutes)
qed

theorem generated_routes_present_witness:
  "\<exists>root h meta.
     getRoutes 1 \<lparr>platformOS = ''ios'', production = False\<rparr> [''./index.tsx''] defaultOptions
       = Some (Inr (Some (root, h)))
     \<and> getFileMeta \<lparr>platformOS = ''ios'', production = False\<rparr> ''./index.tsx'' defaultOptions
         = Inr meta
     \<and> specificity meta = 0 \<and> isLayout meta = False \<and> isApi meta = False
     \<and> (\<exists>n. Obj n \<in> set (children (h ! root)) \<and> route n = ''_sitemap'')
     \<and> (\<exists>n. Obj n \<in> set (children (h ! root)) \<and> route n = ''+not-found''
            \<and> dynamic n = Some [DynamicConvention ''+not-found'' True True])"
proof -
  let ?env = "\<lparr>platformOS = ''ios'', production = False\<rparr>"
  let ?meta = "\<lparr>key = ''index.tsx'', name = ''index'', specificity = 0,
                parts = [''index.tsx''], dirname = [], filename = ''index.tsx'',
                isLayout = False, isApi = False, filepathWithoutExtensions = ''index''\<rparr>"
  let ?h = "[RouteNode (Some (ContextModule ''./index.tsx'' False))
               ''./index.tsx'' ''index'' None [] (Some [''./index.tsx'']) False False,
             RouteNode (Some DefaultNavigator) ''./_layout.tsx'' [] None
               [Obj (RouteNode (Some (ContextModule ''./index.tsx'' False))
                      ''./index.tsx'' ''index'' None []
                      (Some [''expo-router/build/views/Navigator.js'', ''./index.tsx''])
                      False False),
                Obj (RouteNode (Some SitemapView) ''./_sitemap.tsx'' ''_sitemap'' None []
                      (Some [''expo-router/build/views/Navigator.js'',
                             ''expo-router/build/views/Sitemap.js''])
                      True True),
                Obj (RouteNode (Some UnmatchedView) ''./+not-found.tsx'' ''+not-found''
                      (Some [DynamicConvention ''+not-found'' True True]) []
                      (Some [''expo-router/build/views/Navigator.js'',
                             ''expo-router/build/views/Unmatched.js''])
                      True True)]
               None True False,
             RouteNode (Some SitemapView) ''./_sitemap.tsx'' ''_sitemap''
               None [] (Some [''expo-router/build/views/Sitemap.js'']) True True,
             RouteNode (Some UnmatchedView) ''./+not-found.tsx'' ''+not-found''
               (Some [DynamicConvention ''+not-found'' True True]) []
               (Some [''expo-router/build/views/Unmatched.js'']) True True]"
  have routes: "getRoutes 1 ?env [''./index.tsx''] defaultOptions = Some (Inr (Some (1, ?h)))"
    by code_simp
  have listed: "''./index.tsx'' \<in> set [''./index.tsx'']"
    by simp
  have kept: "\<not> list_ex (\<lambda>regex. regex ''./index.tsx'') (getIgnoreList defaultOptions)"
    by code_simp
  have meta: "getFileMeta ?env ''./index.tsx'' defaultOptions = Inr ?meta"
    by code_simp
  have view: "0 \<le> specificity ?meta" "\<not> isLayout ?meta" "\<not> isApi ?meta"
    by simp_all
  note present = generated_routes_present [OF routes listed kept meta view]
  show ?thesis
    using routes meta present by (intro exI [of _ 1] exI [of _ ?h] exI [of _ ?meta]) simp
qed

lemma getRoutes_root:
  assumes "getRoutes fuel env contextModule options = Some (Inr (Some (root, h)))"
  obtains t slots h2 where
    "getDirectoryTree fuel env contextModule options = Some (Inr t)"
    "layout (directoryTree t) = Some slots" "Some root \<in> set slots"
    "root < length h2" "isLayoutKey (contextKey (h2 ! root))" "grows h2 h"
    "\<And>r. r < length (nodes t) \<Longrightarrow> h2 ! r = nodes t ! r"
  using assms
proof (cases rule: getRoutes_Inr)
  case (1 t)
  then show ?thesis by simp
next
  case (2 t d1 h1 d2 h2 r h')
  note prep = getRoutes_prepared [OF 2(1) 2(3) 2(4)]
  obtain slots where slots: "layout d2 = Some slots"
    using prep(2) getDirectoryTree_slotsOk(2) [OF 2(1)] by auto
  from 2(6) have r: "r = Some root" and h': "h' = h"
    by (cases r; simp)+
  have member: "Some root \<in> set slots"
    using hoist_root(1) [OF 2(5) prep(1) slots] r by simp
  then have "root < length h2" "isLayoutKey (contextKey (h2 ! root))"
    using prep(1) slots unfolding slotsOk_def by auto
  moreover have "grows h2 h"
    using hoist_root(2) [OF 2(5) prep(1) slots] h' by simp
  moreover have "layout (directoryTree t) = Some slots"
    using prep(2) slots by simp
  ultimately show ?thesis
    using that 2(1) member prep(5) by blast
qed

lemma placeView_layout:
  "placeView env options h filePath meta node leaf = Inr leaf' \<Longrightarrow> layout leaf' = layout leaf"
  by (auto simp: placeView_def Let_def split: if_splits option.splits)

lemma forLeaves_layout:
  assumes "[] \<in> set leaves \<Longrightarrow> (\<forall>leaf leaf'. f leaf = Inr leaf' \<longrightarrow> layout leaf' = layout leaf)"
  shows "forLeaves leaves f d = Inr d' \<Longrightarrow> layout d' = layout d"
  using assms
proof (induction leaves arbitrary: d)
  case Nil
  then show ?case by simp
next
  case (Cons leaf leaves)
  from Cons.prems(1) obtain d1 where
    m: "modifyAt leaf f d = Inr d1" and rest: "forLeaves leaves f d1 = Inr d'"
    by (auto split: sum.splits)
  have "layout d1 = layout d"
  proof (cases leaf)
    case Nil
    then show ?thesis using m Cons.prems(2) by simp
  next
    case (Cons p ps)
    then show ?thesis using modifyAt_below [of p ps f d d1] m by simp
  qed
  moreover have "layout d' = layout d1"
    using Cons.IH [OF rest] Cons.prems(2) by simp
  ultimately show ?case by simp
qed

lemma scanFile_layout_None:
  assumes "scanFile fuel env options filePath st = Some (Inr st')"
    and "layout (directoryTree st) = None"
    and "\<forall>meta keys. getFileMeta env filePath options = Inr meta \<longrightarrow> isLayout meta
           \<longrightarrow> extrapolateGroups fuel (key meta) [] = Some (Inr keys)
           \<longrightarrow> [] \<notin> set (map (\<lambda>k. subdirectoryParts k meta) keys)"
  shows "layout (directoryTree st') = None"
proof (cases "list_ex (\<lambda>regex. regex filePath) (getIgnoreList options)")
  case True
  then show ?thesis using assms(1,2) by (simp add: scanFile_def)
next
  case False
  with assms(1) obtain meta where meta: "getFileMeta env filePath options = Inr meta"
    by (auto simp: scanFile_def split: sum.splits)
  show ?thesis
  proof (cases "specificity meta < 0")
    case True
    then show ?thesis using assms(1,2) False meta by (simp add: scanFile_def)
  next
    case nonneg: False
    with assms(1) False meta obtain keys where
      keys: "extrapolateGroups fuel (key meta) [] = Some (Inr keys)"
      by (auto simp: scanFile_def split: option.splits sum.splits)
    define leaves where "leaves = map (\<lambda>k. subdirectoryParts k meta) keys"
    define walked where "walked = fold walk leaves (directoryTree st)"
    define node where "node = length (nodes st)"
    define h where "h = nodes st @
        [RouteNode (Some (ContextModule filePath (ignoreRequireErrors options)))
           filePath (name meta) None [] (Some [filePath]) False False]"
    have walked: "layout walked = None"
      using assms(2) by (simp add: walked_def fold_walk_layout_views)
    have "(isLayout meta \<and> forLeaves leaves (placeLayout h filePath meta node) walked
          = Inr (directoryTree st'))
       \<or> (\<not> isLayout meta \<and> isApi meta \<and> directoryTree st' = walked)
       \<or> (\<not> isLayout meta \<and> \<not> isApi meta
          \<and> forLeaves leaves (placeView env options h filePath meta node) walked
              = Inr (directoryTree st'))"
      using assms(1) False meta nonneg keys
      by (auto simp: scanFile_def Let_def leaves_def walked_def node_def h_def
            split: sum.splits if_splits)
    then have "layout (directoryTree st') = layout walked"
    proof (elim disjE conjE)
      assume lay: "isLayout meta"
        and f: "forLeaves leaves (placeLayout h filePath meta node) walked = Inr (directoryTree st')"
      have "[] \<notin> set leaves"
        using assms(3) meta lay keys by (simp add: leaves_def)
      then show ?thesis
        using forLeaves_layout [OF _ f] by simp
    next
      assume "directoryTree st' = walked"
      then show ?thesis by simp
    next
      assume f: "forLeaves leaves (placeView env options h filePath meta node) walked
                  = Inr (directoryTree st')"
      show ?thesis
        using forLeaves_layout [OF _ f] placeView_layout by blast
    qed
    then show ?thesis
      using walked by simp
  qed
qed

lemma scanFiles_layout_None:
  assumes "\<forall>filePath \<in> set filePaths. \<forall>meta keys.
             getFileMeta env filePath options = Inr meta \<longrightarrow> isLayout meta
             \<longrightarrow> extrapolateGroups fuel (key meta) [] = Some (Inr keys)
             \<longrightarrow> [] \<notin> set (map (\<lambda>k. subdirectoryParts k meta) keys)"
  shows "scanFiles fuel env options filePaths st = Some (Inr st')
         \<Longrightarrow> layout (directoryTree st) = None \<Longrightarrow> layout (directoryTree st') = None"
  using assms
proof (induction filePaths arbitrary: st)
  case Nil
  then show ?case by simp
next
  case (Cons a filePaths)
  from Cons.prems(1) obtain st1 where
    one: "scanFile fuel env options a st = Some (Inr st1)" and
    rest: "scanFiles fuel env options filePaths st1 = Some (Inr st')"
    by (auto split: option.splits sum.splits)
  have "layout (directoryTree st1) = None"
    using scanFile_layout_None [OF one Cons.prems(2)] Cons.prems(3) by simp
  then show ?case
    using Cons.IH [OF rest] Cons.prems(3) by simp
qed

lemma generated_root:
  assumes "getRoutes fuel env contextModule options = Some (Inr (Some (root, h)))"
    and "scanFiles fuel env options contextModule
           \<lparr>directoryTree = emptyDirectory, nodes = [], hasRoutes = False, hasLayout = False\<rparr>
         = Some (Inr st)"
    and "layout (directoryTree st) = None"
  shows "root = length (nodes st) \<and> contextKey (h ! root) = ''./_layout.tsx''
         \<and> generated (h ! root) \<and> route (h ! root) = []"
  using assms(1)
proof (cases rule: getRoutes_root)
  case (1 t slots h2)
  have key: "contextKey (h ! root) = contextKey (h2 ! root)"
    and gen: "generated (h ! root) = generated (h2 ! root)"
    and rt: "route (h2 ! root) = [] \<Longrightarrow> route (h ! root) = []"
    using 1(6) by (simp_all add: grows_def)
  have t: "layout (directoryTree t) = Some [Some (length (nodes st))]"
    "nodes t = nodes st @ [defaultLayout]"
    using 1(1) assms(2,3) by (auto simp: getDirectoryTree_def)
  then have root: "root = length (nodes st)"
    using 1(2,3) by simp
  then have "h2 ! root = defaultLayout"
    using 1(7) [of root] t(2) by simp
  then show ?thesis
    using root key gen rt by (simp add: defaultLayout_def)
qed

lemma repeated_segment:
  "getRoutes 1 \<lparr>platformOS = ''ios'', production = False\<rparr> [''./a/_layout.tsx'', ''./a/a/b.tsx'']
     defaultOptions =
     Some (Inr (Some
       (2, [RouteNode (Some (ContextModule ''./a/_layout.tsx'' False)) ''./a/_layout.tsx'' ''a'' None
              [Obj (RouteNode (Some (ContextModule ''./a/a/b.tsx'' False)) ''./a/a/b.tsx'' ''a/b''
                      None []
                      (Some [''expo-router/build/views/Navigator.js'', ''./a/_layout.tsx'',
                             ''./a/a/b.tsx''])
                      False False)]
              None False False,
            RouteNode (Some (ContextModule ''./a/a/b.tsx'' False)) ''./a/a/b.tsx'' ''a/a/b'' None []
              (Some [''./a/a/b.tsx'']) False False,
            RouteNode (Some DefaultNavigator) ''./_layout.tsx'' [] None
              [Obj (RouteNode (Some SitemapView) ''./_sitemap.tsx'' ''_sitemap'' None []
                      (Some [''expo-router/build/views/Navigator.js'',
                             ''expo-router/build/views/Sitemap.js''])
                      True True),
               Obj (RouteNode (Some UnmatchedView) ''./+not-found.tsx'' ''+not-found''
                      (Some [DynamicConvention ''+not-found'' True True]) []
                      (Some [''expo-router/build/views/Navigator.js'',
                             ''expo-router/build/views/Unmatched.js''])
                      True True),
               Ref 0]
              None True False,
            RouteNode (Some SitemapView) ''./_sitemap.tsx'' ''_sitemap'' None []
              (Some [''expo-router/build/views/Sitemap.js'']) True True,
            RouteNode (Some UnmatchedView) ''./+not-found.tsx'' ''+not-found''
              (Some [DynamicConvention ''+not-found'' True True]) []
              (Some [''expo-router/build/views/Unmatched.js'']) True True])))"
  by code_simp

lemma repeated_routes:
  "\<exists>h. getRoutes 1 \<lparr>platformOS = ''ios'', production = False\<rparr>
          [''./a/_layout.tsx'', ''./a/a/b.tsx''] defaultOptions = Some (Inr (Some (2, h)))"
  using repeated_segment by blast

text \<open>
  C9. When \<open>getRoutes\<close> returns a tree, the root is a layout node: its address is in the
  layout slots of the root directory, and its \<open>contextKey\<close> names a layout file. When
  the scan has left the root directory without a layout, the root is the node
  created after the scan: it has the \<open>contextKey\<close> \<^verbatim>\<open>./_layout.tsx\<close>, is generated, and
  has the empty route. The scan leaves the root directory without a layout when no
  layout file of the enumeration has the root directory among its leaves.
\<close>

theorem root_is_layout:
  assumes "getRoutes fuel env contextModule options = Some (Inr (Some (root, h)))"
  shows "isLayoutKey (contextKey (h ! root))
       \<and> (\<exists>t slots. getDirectoryTree fuel env contextModule options = Some (Inr t)
              \<and> layout (directoryTree t) = Some slots \<and> Some root \<in> set slots)
       \<and> (\<forall>st. scanFiles fuel env options contextModule
                   \<lparr>directoryTree = emptyDirectory, nodes = [], hasRoutes = False,
                    hasLayout = False\<rparr> = Some (Inr st)
              \<longrightarrow> layout (directoryTree st) = None
              \<longrightarrow> root = length (nodes st) \<and> contextKey (h ! root) = ''./_layout.tsx''
                  \<and> generated (h ! root) \<and> route (h ! root) = [])
       \<and> ((\<forall>filePath \<in> set contextModule. \<forall>meta keys.
               getFileMeta env filePath options = Inr meta \<longrightarrow> isLayout meta
               \<longrightarrow> extrapolateGroups fuel (key meta) [] = Some (Inr keys)
               \<longrightarrow> [] \<notin> set (map (\<lambda>k. subdirectoryParts k meta) keys))
            \<longrightarrow> contextKey (h ! root) = ''./_layout.tsx''
                \<and> generated (h ! root) \<and> route (h ! root) = [])"
proof -
  from assms obtain t slots h2 where
    t: "getDirectoryTree fuel env contextModule options = Some (Inr t)"
      "layout (directoryTree t) = Some slots" "Some root \<in> set slots"
      "isLayoutKey (contextKey (h2 ! root))" "grows h2 h"
    by (rule getRoutes_root)
  have first: "isLayoutKey (contextKey (h ! root))"
    using t(4,5) by (simp add: grows_def)
  have second: "\<exists>t slots. getDirectoryTree fuel env contextModule options = Some (Inr t)
              \<and> layout (directoryTree t) = Some slots \<and> Some root \<in> set slots"
    using t(1,2,3) by blast
  from t(1) obtain st where scan: "scanFiles fuel env options contextModule
      \<lparr>directoryTree = emptyDirectory, nodes = [], hasRoutes = False, hasLayout = False\<rparr>
      = Some (Inr st)"
    by (auto simp: getDirectoryTree_def split: option.splits sum.splits)
  have third: "\<forall>st. scanFiles fuel env options contextModule
                   \<lparr>directoryTree = emptyDirectory, nodes = [], hasRoutes = False,
                    hasLayout = False\<rparr> = Some (Inr st)
              \<longrightarrow> layout (directoryTree st) = None
              \<longrightarrow> root = length (nodes st) \<and> contextKey (h ! root) = ''./_layout.tsx''
                  \<and> generated (h ! root) \<and> route (h ! root) = []"
    using generated_root [OF assms] by blast
  have fourth: "(\<forall>filePath \<in> set contextModule. \<forall>meta keys.
               getFileMeta env filePath options = Inr meta \<longrightarrow> isLayout meta
               \<longrightarrow> extrapolateGroups fuel (key meta) [] = Some (Inr keys)
               \<longrightarrow> [] \<notin> set (map (\<lambda>k. subdirectoryParts k meta) keys))
            \<longrightarrow> contextKey (h ! root) = ''./_layout.tsx''
                \<and> generated (h ! root) \<and> route (h ! root) = []"
  proof
    assume "\<forall>filePath \<in> set contextModule. \<forall>meta keys.
               getFileMeta env filePath options = Inr meta \<longrightarrow> isLayout meta
               \<longrightarrow> extrapolateGroups fuel (key meta) [] = Some (Inr keys)
               \<longrightarrow> [] \<notin> set (map (\<lambda>k. subdirectoryParts k meta) keys)"
    then have "layout (directoryTree st) = None"
      using scanFiles_layout_None [OF _ scan] by (simp add: emptyDirectory_def)
    then show "contextKey (h ! root) = ''./_layout.tsx''
                \<and> generated (h ! root) \<and> route (h ! root) = []"
      using generated_root [OF assms scan] by blast
  qed
  show ?thesis
    using first second third fourth by (intro conjI)
qed

theorem root_is_layout_witness:
  "\<exists>h st layoutMeta viewMeta.
     getRoutes 1 \<lparr>platformOS = ''ios'', production = False\<rparr>
       [''./a/_layout.tsx'', ''./a/a/b.tsx''] defaultOptions = Some (Inr (Some (2, h)))
     \<and> scanFiles 1 \<lparr>platformOS = ''ios'', production = False\<rparr> defaultOptions
         [''./a/_layout.tsx'', ''./a/a/b.tsx'']
         \<lparr>directoryTree = emptyDirectory, nodes = [], hasRoutes = False, hasLayout = False\<rparr>
         = Some (Inr st)
     \<and> layout (directoryTree st) = None \<and> length (nodes st) = 2
     \<and> getFileMeta \<lparr>platformOS = ''ios'', production = False\<rparr> ''./a/_layout.tsx''
         defaultOptions = Inr layoutMeta
     \<and> isLayout layoutMeta
     \<and> extrapolateGroups 1 (key layoutMeta) [] = Some (Inr [''a/_layout.tsx''])
     \<and> map (\<lambda>k. subdirectoryParts k layoutMeta) [''a/_layout.tsx''] = [[''a'']]
     \<and> getFileMeta \<lparr>platformOS = ''ios'', production = False\<rparr> ''./a/a/b.tsx''
         defaultOptions = Inr viewMeta
     \<and> isLayout viewMeta = False
     \<and> isLayoutKey (contextKey (h ! 2))
     \<and> contextKey (h ! 2) = ''./_layout.tsx'' \<and> generated (h ! 2) \<and> route (h ! 2) = []"
proof -
  let ?env = "\<lparr>platformOS = ''ios'', production = False\<rparr>"
  let ?files = "[''./a/_layout.tsx'', ''./a/a/b.tsx'']"
  let ?lm = "\<lparr>key = ''a/_layout.tsx'', name = ''a'', specificity = 0,
              parts = [''a'', ''_layout.tsx''], dirname = ''a'',
              filename = ''_layout.tsx'', isLayout = True, isApi = False,
              filepathWithoutExtensions = ''a/_layout''\<rparr>"
  let ?vm = "\<lparr>key = ''a/a/b.tsx'', name = ''a/a/b'', specificity = 0,
              parts = [''a'', ''a'', ''b.tsx''], dirname = ''a/a'',
              filename = ''b.tsx'', isLayout = False, isApi = False,
              filepathWithoutExtensions = ''a/a/b''\<rparr>"
  let ?st = "\<lparr>directoryTree =
                DirectoryNode None []
                  [(''a'', DirectoryNode (Some [Some 0]) []
                             [(''a'', DirectoryNode None [(''a/a/b'', [Some 1])] [])])],
              nodes =
                [RouteNode (Some (ContextModule ''./a/_layout.tsx'' False))
                   ''./a/_layout.tsx'' ''a'' None [] (Some [''./a/_layout.tsx'']) False False,
                 RouteNode (Some (ContextModule ''./a/a/b.tsx'' False))
                   ''./a/a/b.tsx'' ''a/a/b'' None [] (Some [''./a/a/b.tsx'']) False False],
              hasRoutes = True, hasLayout = True\<rparr>"
  obtain h where routes: "getRoutes 1 ?env ?files defaultOptions = Some (Inr (Some (2, h)))"
    using repeated_routes by blast
  have scan: "scanFiles 1 ?env defaultOptions ?files
                \<lparr>directoryTree = emptyDirectory, nodes = [], hasRoutes = False,
                 hasLayout = False\<rparr> = Some (Inr ?st)"
    by code_simp
  have none: "layout (directoryTree ?st) = None" and len: "length (nodes ?st) = 2"
    by simp_all
  have lm: "getFileMeta ?env ''./a/_layout.tsx'' defaultOptions = Inr ?lm"
    by code_simp
  have vm: "getFileMeta ?env ''./a/a/b.tsx'' defaultOptions = Inr ?vm"
    by code_simp
  have keys: "extrapolateGroups 1 (key ?lm) [] = Some (Inr [''a/_layout.tsx''])"
    by code_simp
  have leaves: "map (\<lambda>k. subdirectoryParts k ?lm) [''a/_layout.tsx''] = [[''a'']]"
    by code_simp
  have no_root_layout: "\<forall>filePath \<in> set ?files. \<forall>meta keys.
      getFileMeta ?env filePath defaultOptions = Inr meta \<longrightarrow> isLayout meta
      \<longrightarrow> extrapolateGroups 1 (key meta) [] = Some (Inr keys)
      \<longrightarrow> [] \<notin> set (map (\<lambda>k. subdirectoryParts k meta) keys)"
  proof (intro ballI allI impI)
    fix filePath meta keys'
    assume f: "filePath \<in> set ?files"
      and m: "getFileMeta ?env filePath defaultOptions = Inr meta" and l: "isLayout meta"
      and k: "extrapolateGroups 1 (key meta) [] = Some (Inr keys')"
    from f have "filePath = ''./a/_layout.tsx'' \<or> filePath = ''./a/a/b.tsx''"
      by simp
    then show "[] \<notin> set (map (\<lambda>k. subdirectoryParts k meta) keys')"
    proof
      assume "filePath = ''./a/_layout.tsx''"
      then have "meta = ?lm"
        using m lm by simp
      moreover from this have "keys' = [''a/_layout.tsx'']"
        using k keys by simp
      ultimately show ?thesis
        using leaves by simp
    next
      assume "filePath = ''./a/a/b.tsx''"
      then have "meta = ?vm"
        using m vm by simp
      then show ?thesis
        using l by simp
    qed
  qed
  note root = root_is_layout [OF routes]
  have generated_root_node: "isLayoutKey (contextKey (h ! 2))
        \<and> contextKey (h ! 2) = ''./_layout.tsx'' \<and> generated (h ! 2) \<and> route (h ! 2) = []"
    using root no_root_layout by blast
  then have g1: "isLayoutKey (contextKey (h ! 2))" and g2: "contextKey (h ! 2) = ''./_layout.tsx''"
    and g3: "generated (h ! 2)" and g4: "route (h ! 2) = []"
    by blast+
  have l1: "isLayout ?lm" and l2: "isLayout ?vm = False"
    by simp_all
  show ?thesis
    by (rule exI [of _ h], rule exI [of _ ?st], rule exI [of _ ?lm], rule exI [of _ ?vm])
       (intro conjI; fact)
qed







section \<open>Hoisting\<close>











end
